theory Spec2Isabelle
  imports Main "HOL-Library.Word" "HOL-Library.Monad_Syntax"
begin

unbundle bit_operations_syntax

section \<open>The CPU JPEG encoder of uStreamer (encoders/cpu/encoder.c)\<close>

text \<open>
  Bytes (\<open>uint8_t\<close>, \<open>JOCTET\<close>) are 8-bit words. The \<open>int\<close> values of the pixel
  arithmetic are mathematical integers: every intermediate value is built from bytes with
  coefficients below 600, so it stays far inside the 32-bit range and no wrap-around can
  happen. \<open>x >> 8\<close> on an \<open>int\<close> is the arithmetic shift of the usual compilers, which
  is \<open>drop_bit 8\<close> (rounding towards minus infinity). Sizes, offsets and loop counters
  are natural numbers; a pointer into a buffer is the offset from the start of that buffer.
  The \<open>int\<close> indices of the semi-planar converters are checked against \<open>INT_MAX\<close>
  where they are computed.

  A read or write outside a buffer is undefined behaviour in C. Here it is the result
  \<open>None\<close>: every function that touches memory returns an option.
\<close>

type_synonym u8 = "8 word"

definition rd :: "u8 list \<Rightarrow> nat \<Rightarrow> u8 option" where
  "rd mem i = (if i < length mem then Some (mem ! i) else None)"

definition wr :: "u8 list \<Rightarrow> nat \<Rightarrow> u8 \<Rightarrow> u8 list option" where
  "wr mem i v = (if i < length mem then Some (mem[i := v]) else None)"

text \<open>The bytes \<open>off .. off + n - 1\<close> of a buffer, as the compressor reads one row.\<close>

definition rd_row :: "u8 list \<Rightarrow> nat \<Rightarrow> nat \<Rightarrow> u8 list option" where
  "rd_row mem off n = (if off + n \<le> length mem then Some (take n (drop off mem)) else None)"

subsection \<open>Frames and the compressor\<close>

text \<open>
  \<open>us_frame_s\<close>: the fields this file reads and writes. \<open>data\<close> holds the bytes of
  the buffer; \<open>used\<close> is the number of valid bytes (of a destination frame).
\<close>

record us_frame =
  width :: nat
  height :: nat
  format :: "32 word"
  data :: "u8 list"
  used :: nat

text \<open>
  \<open>struct jpeg_compress_struct\<close>, as far as the scanline feeders see it:
  \<open>next_scanline\<close> counts the rows consumed, and \<open>written\<close> records those rows in
  order. \<open>jpeg_write_scanlines(jpeg, scanlines, 1)\<close> of the external library consumes
  one row of \<open>image_width * input_components\<close> bytes and advances \<open>next_scanline\<close>.
\<close>

record jpeg_compress_struct =
  next_scanline :: nat
  written :: "u8 list list"

definition jpeg_write_scanlines :: "jpeg_compress_struct \<Rightarrow> u8 list \<Rightarrow> jpeg_compress_struct" where
  "jpeg_write_scanlines jpeg row =
     jpeg\<lparr>next_scanline := next_scanline jpeg + 1, written := written jpeg @ [row]\<rparr>"

definition jpeg_start_compress :: "jpeg_compress_struct" where
  "jpeg_start_compress = \<lparr>next_scanline = 0, written = []\<rparr>"

subsection \<open>RGB565\<close>

text \<open>One pass of the body of the \<open>for\<close> loop of \<open>_jpeg_write_scanlines_rgb565\<close>.\<close>

definition rgb565_pixel :: "u8 list \<Rightarrow> u8 list \<Rightarrow> nat \<Rightarrow> nat \<Rightarrow> u8 list option" where
  "rgb565_pixel mem line_buf ptr d =
     do {
       d0 \<leftarrow> rd mem d;
       d1 \<leftarrow> rd mem (d + 1);
       let two_byte = (push_bit 8 (ucast d1) + ucast d0 :: 32 word);
       lb \<leftarrow> wr line_buf ptr (d1 AND 248);
       lb \<leftarrow> wr lb (ptr + 1) (ucast (drop_bit 3 (two_byte AND 2016)));
       wr lb (ptr + 2) (ucast (((ucast d0 :: 32 word) AND 31) * 8))
     }"

function rgb565_line :: "u8 list \<Rightarrow> nat \<Rightarrow> u8 list \<Rightarrow> nat \<Rightarrow> nat \<Rightarrow> nat \<Rightarrow> (u8 list \<times> nat) option" where
  "rgb565_line mem w line_buf ptr d x =
     (if x < w then
        (case rgb565_pixel mem line_buf ptr d of
           None \<Rightarrow> None
         | Some lb \<Rightarrow> rgb565_line mem w lb (ptr + 3) (d + 2) (x + 1))
      else Some (line_buf, d))"
  by pat_completeness auto
termination
  by (relation "measure (\<lambda>(mem, w, line_buf, ptr, d, x). w - x)") auto

declare rgb565_line.simps [simp del]

function rgb565_rows :: "us_frame \<Rightarrow> nat \<Rightarrow> u8 list \<Rightarrow> nat \<Rightarrow> jpeg_compress_struct \<Rightarrow> jpeg_compress_struct option" where
  "rgb565_rows frame padding line_buf d jpeg =
     (if next_scanline jpeg < height frame then
        (case rgb565_line (data frame) (width frame) line_buf 0 d 0 of
           None \<Rightarrow> None
         | Some (lb, d') \<Rightarrow>
             rgb565_rows frame padding lb (d' + padding) (jpeg_write_scanlines jpeg lb))
      else Some jpeg)"
  by pat_completeness auto
termination
  by (relation "measure (\<lambda>(frame, padding, line_buf, d, jpeg). height frame - next_scanline jpeg)")
     (auto simp: jpeg_write_scanlines_def)

declare rgb565_rows.simps [simp del]

definition jpeg_write_scanlines_rgb565 :: "jpeg_compress_struct \<Rightarrow> us_frame \<Rightarrow> nat \<Rightarrow> jpeg_compress_struct option" where
  "jpeg_write_scanlines_rgb565 jpeg frame padding =
     rgb565_rows frame padding (replicate (width frame * 3) 0) 0 jpeg"

definition rgb565_chan :: "u8 \<Rightarrow> u8 \<Rightarrow> u8 list" where
  "rgb565_chan d0 d1 =
     [d1 AND 248,
      ucast (drop_bit 3 ((push_bit 8 (ucast d1) + ucast d0 :: 32 word) AND 2016)),
      ucast (((ucast d0 :: 32 word) AND 31) * 8)]"

definition put3 :: "u8 list \<Rightarrow> nat \<Rightarrow> u8 list \<Rightarrow> u8 list" where
  "put3 lb ptr ch = lb[ptr := ch ! 0, ptr + 1 := ch ! 1, ptr + 2 := ch ! 2]"

subsection \<open>Packed 4:2:2: YUYV and UYVY\<close>

text \<open>The macros \<open>YUV_R\<close>, \<open>YUV_G\<close>, \<open>YUV_B\<close> and \<open>NORM_COMPONENT\<close>.\<close>

definition YUV_R :: "int \<Rightarrow> int \<Rightarrow> int \<Rightarrow> int" where
  "YUV_R y u v = drop_bit 8 (y + 359 * v)"

definition YUV_G :: "int \<Rightarrow> int \<Rightarrow> int \<Rightarrow> int" where
  "YUV_G y u v = drop_bit 8 (y - 88 * u - 183 * v)"

definition YUV_B :: "int \<Rightarrow> int \<Rightarrow> int \<Rightarrow> int" where
  "YUV_B y u v = drop_bit 8 (y + 454 * u)"

definition NORM_COMPONENT :: "int \<Rightarrow> int" where
  "NORM_COMPONENT x = (if x > 255 then 255 else if x < 0 then 0 else x)"

text \<open>
  One pass of the body of the \<open>for\<close> loop of \<open>_jpeg_write_scanlines_yuyv\<close>, up to
  the three stores; \<open>z\<close> selects the first or the second luma byte of the group at
  \<open>data\<close>.
\<close>

definition yuyv_pixel :: "u8 list \<Rightarrow> u8 list \<Rightarrow> nat \<Rightarrow> nat \<Rightarrow> nat \<Rightarrow> u8 list option" where
  "yuyv_pixel mem line_buf ptr d z =
     do {
       yb \<leftarrow> (if z = 0 then rd mem d else rd mem (d + 2));
       ub \<leftarrow> rd mem (d + 1);
       vb \<leftarrow> rd mem (d + 3);
       let y = push_bit 8 (uint yb);
       let u = uint ub - 128;
       let v = uint vb - 128;
       let r = YUV_R y u v;
       let g = YUV_G y u v;
       let b = YUV_B y u v;
       lb \<leftarrow> wr line_buf ptr (word_of_int (NORM_COMPONENT r));
       lb \<leftarrow> wr lb (ptr + 1) (word_of_int (NORM_COMPONENT g));
       wr lb (ptr + 2) (word_of_int (NORM_COMPONENT b))
     }"

text \<open>
  The \<open>for\<close> loop over \<open>x\<close>. After the stores, \<open>if (z++) { z = 0; data += 4; }\<close>:
  a non-zero \<open>z\<close> is reset and the group pointer advances, a zero \<open>z\<close> becomes 1.
\<close>

function yuyv_line :: "u8 list \<Rightarrow> nat \<Rightarrow> u8 list \<Rightarrow> nat \<Rightarrow> nat \<Rightarrow> nat \<Rightarrow> nat \<Rightarrow> (u8 list \<times> nat \<times> nat) option" where
  "yuyv_line mem w line_buf ptr d z x =
     (if x < w then
        (case yuyv_pixel mem line_buf ptr d z of
           None \<Rightarrow> None
         | Some lb \<Rightarrow>
             (if z \<noteq> 0 then yuyv_line mem w lb (ptr + 3) (d + 4) 0 (x + 1)
              else yuyv_line mem w lb (ptr + 3) d (z + 1) (x + 1)))
      else Some (line_buf, d, z))"
  by pat_completeness auto
termination
  by (relation "measure (\<lambda>(mem, w, line_buf, ptr, d, z, x). w - x)") auto

declare yuyv_line.simps [simp del]

text \<open>The \<open>while\<close> loop: \<open>z\<close> is declared outside of it and lives across rows.\<close>

function yuyv_rows :: "us_frame \<Rightarrow> nat \<Rightarrow> u8 list \<Rightarrow> nat \<Rightarrow> nat \<Rightarrow> jpeg_compress_struct \<Rightarrow> jpeg_compress_struct option" where
  "yuyv_rows frame padding line_buf d z jpeg =
     (if next_scanline jpeg < height frame then
        (case yuyv_line (data frame) (width frame) line_buf 0 d z 0 of
           None \<Rightarrow> None
         | Some (lb, d', z') \<Rightarrow>
             yuyv_rows frame padding lb (d' + padding) z' (jpeg_write_scanlines jpeg lb))
      else Some jpeg)"
  by pat_completeness auto
termination
  by (relation "measure (\<lambda>(frame, padding, line_buf, d, z, jpeg). height frame - next_scanline jpeg)")
     (auto simp: jpeg_write_scanlines_def)

declare yuyv_rows.simps [simp del]

definition jpeg_write_scanlines_yuyv :: "jpeg_compress_struct \<Rightarrow> us_frame \<Rightarrow> nat \<Rightarrow> jpeg_compress_struct option" where
  "jpeg_write_scanlines_yuyv jpeg frame padding =
     yuyv_rows frame padding (replicate (width frame * 3) 0) 0 0 jpeg"

text \<open>\<open>_jpeg_write_scanlines_uyvy\<close>: the same loops, with chroma first in each group.\<close>

definition uyvy_pixel :: "u8 list \<Rightarrow> u8 list \<Rightarrow> nat \<Rightarrow> nat \<Rightarrow> nat \<Rightarrow> u8 list option" where
  "uyvy_pixel mem line_buf ptr d z =
     do {
       yb \<leftarrow> (if z = 0 then rd mem (d + 1) else rd mem (d + 3));
       ub \<leftarrow> rd mem d;
       vb \<leftarrow> rd mem (d + 2);
       let y = push_bit 8 (uint yb);
       let u = uint ub - 128;
       let v = uint vb - 128;
       let r = YUV_R y u v;
       let g = YUV_G y u v;
       let b = YUV_B y u v;
       lb \<leftarrow> wr line_buf ptr (word_of_int (NORM_COMPONENT r));
       lb \<leftarrow> wr lb (ptr + 1) (word_of_int (NORM_COMPONENT g));
       wr lb (ptr + 2) (word_of_int (NORM_COMPONENT b))
     }"

function uyvy_line :: "u8 list \<Rightarrow> nat \<Rightarrow> u8 list \<Rightarrow> nat \<Rightarrow> nat \<Rightarrow> nat \<Rightarrow> nat \<Rightarrow> (u8 list \<times> nat \<times> nat) option" where
  "uyvy_line mem w line_buf ptr d z x =
     (if x < w then
        (case uyvy_pixel mem line_buf ptr d z of
           None \<Rightarrow> None
         | Some lb \<Rightarrow>
             (if z \<noteq> 0 then uyvy_line mem w lb (ptr + 3) (d + 4) 0 (x + 1)
              else uyvy_line mem w lb (ptr + 3) d (z + 1) (x + 1)))
      else Some (line_buf, d, z))"
  by pat_completeness auto
termination
  by (relation "measure (\<lambda>(mem, w, line_buf, ptr, d, z, x). w - x)") auto

declare uyvy_line.simps [simp del]

function uyvy_rows :: "us_frame \<Rightarrow> nat \<Rightarrow> u8 list \<Rightarrow> nat \<Rightarrow> nat \<Rightarrow> jpeg_compress_struct \<Rightarrow> jpeg_compress_struct option" where
  "uyvy_rows frame padding line_buf d z jpeg =
     (if next_scanline jpeg < height frame then
        (case uyvy_line (data frame) (width frame) line_buf 0 d z 0 of
           None \<Rightarrow> None
         | Some (lb, d', z') \<Rightarrow>
             uyvy_rows frame padding lb (d' + padding) z' (jpeg_write_scanlines jpeg lb))
      else Some jpeg)"
  by pat_completeness auto
termination
  by (relation "measure (\<lambda>(frame, padding, line_buf, d, z, jpeg). height frame - next_scanline jpeg)")
     (auto simp: jpeg_write_scanlines_def)

declare uyvy_rows.simps [simp del]

definition jpeg_write_scanlines_uyvy :: "jpeg_compress_struct \<Rightarrow> us_frame \<Rightarrow> nat \<Rightarrow> jpeg_compress_struct option" where
  "jpeg_write_scanlines_uyvy jpeg frame padding =
     uyvy_rows frame padding (replicate (width frame * 3) 0) 0 0 jpeg"

text \<open>
  The three bytes stored for one pixel, as a function of its luma byte and the two chroma
  bytes of its group (used to state the results about both feeders).
\<close>

definition yuv_chan :: "u8 \<Rightarrow> u8 \<Rightarrow> u8 \<Rightarrow> u8 list" where
  "yuv_chan yb ub vb =
     [word_of_int (NORM_COMPONENT (YUV_R (push_bit 8 (uint yb)) (uint ub - 128) (uint vb - 128))),
      word_of_int (NORM_COMPONENT (YUV_G (push_bit 8 (uint yb)) (uint ub - 128) (uint vb - 128))),
      word_of_int (NORM_COMPONENT (YUV_B (push_bit 8 (uint yb)) (uint ub - 128) (uint vb - 128)))]"

text \<open>Clamping to the range of a byte, as the claims word it.\<close>

definition clamp255 :: "int \<Rightarrow> int" where
  "clamp255 x = max 0 (min 255 x)"

subsection \<open>BGR24 and RGB24\<close>

text \<open>
  One pass of the body of the \<open>for\<close> loop of \<open>_jpeg_write_scanlines_bgr24\<close>: the
  three bytes at \<open>data[x]\<close>, \<open>data[x+1]\<close>, \<open>data[x+2]\<close> are stored in reverse order.
\<close>

definition bgr24_pixel :: "u8 list \<Rightarrow> u8 list \<Rightarrow> nat \<Rightarrow> nat \<Rightarrow> nat \<Rightarrow> u8 list option" where
  "bgr24_pixel mem line_buf ptr d x =
     do {
       b2 \<leftarrow> rd mem (d + (x + 2));
       lb \<leftarrow> wr line_buf ptr b2;
       b1 \<leftarrow> rd mem (d + (x + 1));
       lb \<leftarrow> wr lb (ptr + 1) b1;
       b0 \<leftarrow> rd mem (d + x);
       wr lb (ptr + 2) b0
     }"

function bgr24_line :: "u8 list \<Rightarrow> nat \<Rightarrow> u8 list \<Rightarrow> nat \<Rightarrow> nat \<Rightarrow> nat \<Rightarrow> u8 list option" where
  "bgr24_line mem w line_buf ptr d x =
     (if x < w * 3 then
        (case bgr24_pixel mem line_buf ptr d x of
           None \<Rightarrow> None
         | Some lb \<Rightarrow> bgr24_line mem w lb (ptr + 3) d (x + 3))
      else Some line_buf)"
  by pat_completeness auto
termination
  by (relation "measure (\<lambda>(mem, w, line_buf, ptr, d, x). w * 3 - x)") auto

declare bgr24_line.simps [simp del]

function bgr24_rows :: "us_frame \<Rightarrow> nat \<Rightarrow> u8 list \<Rightarrow> nat \<Rightarrow> jpeg_compress_struct \<Rightarrow> jpeg_compress_struct option" where
  "bgr24_rows frame padding line_buf d jpeg =
     (if next_scanline jpeg < height frame then
        (case bgr24_line (data frame) (width frame) line_buf 0 d 0 of
           None \<Rightarrow> None
         | Some lb \<Rightarrow>
             bgr24_rows frame padding lb (d + (width frame * 3 + padding))
               (jpeg_write_scanlines jpeg lb))
      else Some jpeg)"
  by pat_completeness auto
termination
  by (relation "measure (\<lambda>(frame, padding, line_buf, d, jpeg). height frame - next_scanline jpeg)")
     (auto simp: jpeg_write_scanlines_def)

declare bgr24_rows.simps [simp del]

definition jpeg_write_scanlines_bgr24 :: "jpeg_compress_struct \<Rightarrow> us_frame \<Rightarrow> nat \<Rightarrow> jpeg_compress_struct option" where
  "jpeg_write_scanlines_bgr24 jpeg frame padding =
     bgr24_rows frame padding (replicate (width frame * 3) 0) 0 jpeg"

text \<open>
  \<open>_jpeg_write_scanlines_rgb24\<close> hands the rows of the source buffer to the compressor
  as they are; the compressor reads \<open>width * 3\<close> bytes at the pointer it is given.
\<close>

function rgb24_rows :: "us_frame \<Rightarrow> nat \<Rightarrow> nat \<Rightarrow> jpeg_compress_struct \<Rightarrow> jpeg_compress_struct option" where
  "rgb24_rows frame padding d jpeg =
     (if next_scanline jpeg < height frame then
        (case rd_row (data frame) d (width frame * 3) of
           None \<Rightarrow> None
         | Some row \<Rightarrow>
             rgb24_rows frame padding (d + (width frame * 3 + padding))
               (jpeg_write_scanlines jpeg row))
      else Some jpeg)"
  by pat_completeness auto
termination
  by (relation "measure (\<lambda>(frame, padding, d, jpeg). height frame - next_scanline jpeg)")
     (auto simp: jpeg_write_scanlines_def)

declare rgb24_rows.simps [simp del]

definition jpeg_write_scanlines_rgb24 :: "jpeg_compress_struct \<Rightarrow> us_frame \<Rightarrow> nat \<Rightarrow> jpeg_compress_struct option" where
  "jpeg_write_scanlines_rgb24 jpeg frame padding = rgb24_rows frame padding 0 jpeg"

subsection \<open>Semi-planar formats: NV12, NV16 and NV24\<close>

text \<open>
  The converters take \<open>width\<close> and \<open>height\<close> as \<open>int\<close> and compute every index in
  \<open>int\<close>. None of these values is negative, so they are natural numbers here, and an
  \<open>int\<close> expression whose value would exceed \<open>INT_MAX\<close> (signed overflow, undefined
  behaviour) has the result \<open>None\<close>. The operands of each index expression are not
  negative and are only added and multiplied, so its intermediate values are at most its
  final value, and checking the final value is enough.
\<close>

definition INT_MAX :: nat where
  "INT_MAX = 2147483647"

definition cint :: "nat \<Rightarrow> nat option" where
  "cint n = (if n \<le> INT_MAX then Some n else None)"

text \<open>
  The body of the inner loop of \<open>_nv12_to_rgb24\<close> for the pixel \<open>(i, j)\<close>; \<open>i / 2\<close>
  on a non-negative \<open>int\<close> is \<open>i div 2\<close>.
\<close>

definition nv12_pixel :: "u8 list \<Rightarrow> u8 list \<Rightarrow> nat \<Rightarrow> nat \<Rightarrow> nat \<Rightarrow> nat \<Rightarrow> u8 list option" where
  "nv12_pixel inp out w uv_offset i j =
      do {
        uv_index \<leftarrow> cint ((i div 2) * w + 2 * (j div 2));
        y_index \<leftarrow> cint (i * w + j);
        Yb \<leftarrow> rd inp y_index;
        u_index \<leftarrow> cint (uv_offset + uv_index);
        Ub \<leftarrow> rd inp u_index;
        v_index \<leftarrow> cint (uv_offset + uv_index + 1);
        Vb \<leftarrow> rd inp v_index;
        let C = uint Yb - 16;
        let D = uint Ub - 128;
        let E = uint Vb - 128;
        let R = drop_bit 8 (298 * C + 409 * E + 128);
        let G = drop_bit 8 (298 * C - 100 * D - 208 * E + 128);
        let B = drop_bit 8 (298 * C + 516 * D + 128);
        let R = (if R < 0 then 0 else if R > 255 then 255 else R);
        let G = (if G < 0 then 0 else if G > 255 then 255 else G);
        let B = (if B < 0 then 0 else if B > 255 then 255 else B);
        rgb_index \<leftarrow> cint ((i * w + j) * 3);
        out \<leftarrow> wr out rgb_index (word_of_int R);
        g_index \<leftarrow> cint (rgb_index + 1);
        out \<leftarrow> wr out g_index (word_of_int G);
        b_index \<leftarrow> cint (rgb_index + 2);
        wr out b_index (word_of_int B)
      }"

function nv12_cols :: "u8 list \<Rightarrow> u8 list \<Rightarrow> nat \<Rightarrow> nat \<Rightarrow> nat \<Rightarrow> nat \<Rightarrow> u8 list option" where
  "nv12_cols inp out w uv_offset i j =
     (if j < w then
        (case nv12_pixel inp out w uv_offset i j of
           None \<Rightarrow> None
         | Some out' \<Rightarrow> nv12_cols inp out' w uv_offset i (j + 1))
      else Some out)"
  by pat_completeness auto
termination
  by (relation "measure (\<lambda>(inp, out, w, uv_offset, i, j). w - j)") auto

declare nv12_cols.simps [simp del]

function nv12_rows :: "u8 list \<Rightarrow> u8 list \<Rightarrow> nat \<Rightarrow> nat \<Rightarrow> nat \<Rightarrow> nat \<Rightarrow> u8 list option" where
  "nv12_rows inp out w h uv_offset i =
     (if i < h then
        (case nv12_cols inp out w uv_offset i 0 of
           None \<Rightarrow> None
         | Some out' \<Rightarrow> nv12_rows inp out' w h uv_offset (i + 1))
      else Some out)"
  by pat_completeness auto
termination
  by (relation "measure (\<lambda>(inp, out, w, h, uv_offset, i). h - i)") auto

declare nv12_rows.simps [simp del]

definition nv12_to_rgb24 :: "u8 list \<Rightarrow> u8 list \<Rightarrow> nat \<Rightarrow> nat \<Rightarrow> u8 list option" where
  "nv12_to_rgb24 inp out w h =
     (if w \<le> INT_MAX \<and> h \<le> INT_MAX then
        do {
          frame_size \<leftarrow> cint (w * h);
          let uv_offset = frame_size;
          nv12_rows inp out w h uv_offset 0
        }
      else None)"

text \<open>
  \<open>_nv16_to_rgb24\<close>. \<open>j & ~1\<close> is the bitwise operation on the \<open>int\<close> \<open>j\<close>; the
  chroma bytes have 128 subtracted as they are read.
\<close>

definition nv16_pixel :: "u8 list \<Rightarrow> u8 list \<Rightarrow> nat \<Rightarrow> nat \<Rightarrow> nat \<Rightarrow> nat \<Rightarrow> u8 list option" where
  "nv16_pixel inp out w uv_offset i j =
      do {
        y_index \<leftarrow> cint (i * w + j);
        uv_index \<leftarrow> cint (uv_offset + (i * w) + nat (int j AND NOT 1));
        Yb \<leftarrow> rd inp y_index;
        Ub \<leftarrow> rd inp uv_index;
        v_index \<leftarrow> cint (uv_index + 1);
        Vb \<leftarrow> rd inp v_index;
        let Y = uint Yb;
        let U = uint Ub - 128;
        let V = uint Vb - 128;
        let R = drop_bit 8 (298 * (Y - 16) + 409 * V + 128);
        let G = drop_bit 8 (298 * (Y - 16) - 100 * U - 208 * V + 128);
        let B = drop_bit 8 (298 * (Y - 16) + 516 * U + 128);
        let R = (if R < 0 then 0 else if R > 255 then 255 else R);
        let G = (if G < 0 then 0 else if G > 255 then 255 else G);
        let B = (if B < 0 then 0 else if B > 255 then 255 else B);
        rgb_index \<leftarrow> cint (y_index * 3);
        out \<leftarrow> wr out rgb_index (word_of_int R);
        g_index \<leftarrow> cint (rgb_index + 1);
        out \<leftarrow> wr out g_index (word_of_int G);
        b_index \<leftarrow> cint (rgb_index + 2);
        wr out b_index (word_of_int B)
      }"

function nv16_cols :: "u8 list \<Rightarrow> u8 list \<Rightarrow> nat \<Rightarrow> nat \<Rightarrow> nat \<Rightarrow> nat \<Rightarrow> u8 list option" where
  "nv16_cols inp out w uv_offset i j =
     (if j < w then
        (case nv16_pixel inp out w uv_offset i j of
           None \<Rightarrow> None
         | Some out' \<Rightarrow> nv16_cols inp out' w uv_offset i (j + 1))
      else Some out)"
  by pat_completeness auto
termination
  by (relation "measure (\<lambda>(inp, out, w, uv_offset, i, j). w - j)") auto

declare nv16_cols.simps [simp del]

function nv16_rows :: "u8 list \<Rightarrow> u8 list \<Rightarrow> nat \<Rightarrow> nat \<Rightarrow> nat \<Rightarrow> nat \<Rightarrow> u8 list option" where
  "nv16_rows inp out w h uv_offset i =
     (if i < h then
        (case nv16_cols inp out w uv_offset i 0 of
           None \<Rightarrow> None
         | Some out' \<Rightarrow> nv16_rows inp out' w h uv_offset (i + 1))
      else Some out)"
  by pat_completeness auto
termination
  by (relation "measure (\<lambda>(inp, out, w, h, uv_offset, i). h - i)") auto

declare nv16_rows.simps [simp del]

definition nv16_to_rgb24 :: "u8 list \<Rightarrow> u8 list \<Rightarrow> nat \<Rightarrow> nat \<Rightarrow> u8 list option" where
  "nv16_to_rgb24 inp out w h =
     (if w \<le> INT_MAX \<and> h \<le> INT_MAX then
        do {
          frame_size \<leftarrow> cint (w * h);
          let uv_offset = frame_size;
          nv16_rows inp out w h uv_offset 0
        }
      else None)"

text \<open>\<open>_nv24_to_rgb24\<close>: one chroma pair for every pixel.\<close>

definition nv24_pixel :: "u8 list \<Rightarrow> u8 list \<Rightarrow> nat \<Rightarrow> nat \<Rightarrow> nat \<Rightarrow> nat \<Rightarrow> u8 list option" where
  "nv24_pixel inp out w uv_offset i j =
      do {
        y_index \<leftarrow> cint (i * w + j);
        uv_index \<leftarrow> cint (uv_offset + (2 * j) + (i * w * 2));
        Yb \<leftarrow> rd inp y_index;
        Ub \<leftarrow> rd inp uv_index;
        v_index \<leftarrow> cint (uv_index + 1);
        Vb \<leftarrow> rd inp v_index;
        let Y = uint Yb;
        let U = uint Ub - 128;
        let V = uint Vb - 128;
        let R = drop_bit 8 (298 * (Y - 16) + 409 * V + 128);
        let G = drop_bit 8 (298 * (Y - 16) - 100 * U - 208 * V + 128);
        let B = drop_bit 8 (298 * (Y - 16) + 516 * U + 128);
        let R = (if R < 0 then 0 else if R > 255 then 255 else R);
        let G = (if G < 0 then 0 else if G > 255 then 255 else G);
        let B = (if B < 0 then 0 else if B > 255 then 255 else B);
        rgb_index \<leftarrow> cint (y_index * 3);
        out \<leftarrow> wr out rgb_index (word_of_int R);
        g_index \<leftarrow> cint (rgb_index + 1);
        out \<leftarrow> wr out g_index (word_of_int G);
        b_index \<leftarrow> cint (rgb_index + 2);
        wr out b_index (word_of_int B)
      }"

function nv24_cols :: "u8 list \<Rightarrow> u8 list \<Rightarrow> nat \<Rightarrow> nat \<Rightarrow> nat \<Rightarrow> nat \<Rightarrow> u8 list option" where
  "nv24_cols inp out w uv_offset i j =
     (if j < w then
        (case nv24_pixel inp out w uv_offset i j of
           None \<Rightarrow> None
         | Some out' \<Rightarrow> nv24_cols inp out' w uv_offset i (j + 1))
      else Some out)"
  by pat_completeness auto
termination
  by (relation "measure (\<lambda>(inp, out, w, uv_offset, i, j). w - j)") auto

declare nv24_cols.simps [simp del]

function nv24_rows :: "u8 list \<Rightarrow> u8 list \<Rightarrow> nat \<Rightarrow> nat \<Rightarrow> nat \<Rightarrow> nat \<Rightarrow> u8 list option" where
  "nv24_rows inp out w h uv_offset i =
     (if i < h then
        (case nv24_cols inp out w uv_offset i 0 of
           None \<Rightarrow> None
         | Some out' \<Rightarrow> nv24_rows inp out' w h uv_offset (i + 1))
      else Some out)"
  by pat_completeness auto
termination
  by (relation "measure (\<lambda>(inp, out, w, h, uv_offset, i). h - i)") auto

declare nv24_rows.simps [simp del]

definition nv24_to_rgb24 :: "u8 list \<Rightarrow> u8 list \<Rightarrow> nat \<Rightarrow> nat \<Rightarrow> u8 list option" where
  "nv24_to_rgb24 inp out w h =
     (if w \<le> INT_MAX \<and> h \<le> INT_MAX then
        do {
          frame_size \<leftarrow> cint (w * h);
          let uv_offset = frame_size;
          nv24_rows inp out w h uv_offset 0
        }
      else None)"

text \<open>
  The scanline loops of \<open>_jpeg_write_scanlines_nv12\<close>, \<open>_nv16\<close> and \<open>_nv24\<close>: the
  frame is converted into a buffer \<open>rgb\<close> of \<open>width * height * 3\<close> zeroed bytes, and the
  loop hands the compressor the row at \<open>data\<close>, then advances \<open>data\<close> by
  \<open>width * 3 + padding\<close>.
\<close>

function nv12_scanlines :: "us_frame \<Rightarrow> nat \<Rightarrow> u8 list \<Rightarrow> nat \<Rightarrow> jpeg_compress_struct \<Rightarrow> jpeg_compress_struct option" where
  "nv12_scanlines frame padding rgb d jpeg =
     (if next_scanline jpeg < height frame then
        (case rd_row rgb d (width frame * 3) of
           None \<Rightarrow> None
         | Some row \<Rightarrow>
             nv12_scanlines frame padding rgb (d + (width frame * 3 + padding))
               (jpeg_write_scanlines jpeg row))
      else Some jpeg)"
  by pat_completeness auto
termination
  by (relation "measure (\<lambda>(frame, padding, rgb, d, jpeg). height frame - next_scanline jpeg)")
     (auto simp: jpeg_write_scanlines_def)

declare nv12_scanlines.simps [simp del]

definition jpeg_write_scanlines_nv12 :: "jpeg_compress_struct \<Rightarrow> us_frame \<Rightarrow> nat \<Rightarrow> jpeg_compress_struct option" where
  "jpeg_write_scanlines_nv12 jpeg frame padding =
     do {
       rgb \<leftarrow> nv12_to_rgb24 (data frame) (replicate (width frame * height frame * 3) 0)
                (width frame) (height frame);
       nv12_scanlines frame padding rgb 0 jpeg
     }"

function nv16_scanlines :: "us_frame \<Rightarrow> nat \<Rightarrow> u8 list \<Rightarrow> nat \<Rightarrow> jpeg_compress_struct \<Rightarrow> jpeg_compress_struct option" where
  "nv16_scanlines frame padding rgb d jpeg =
     (if next_scanline jpeg < height frame then
        (case rd_row rgb d (width frame * 3) of
           None \<Rightarrow> None
         | Some row \<Rightarrow>
             nv16_scanlines frame padding rgb (d + (width frame * 3 + padding))
               (jpeg_write_scanlines jpeg row))
      else Some jpeg)"
  by pat_completeness auto
termination
  by (relation "measure (\<lambda>(frame, padding, rgb, d, jpeg). height frame - next_scanline jpeg)")
     (auto simp: jpeg_write_scanlines_def)

declare nv16_scanlines.simps [simp del]

definition jpeg_write_scanlines_nv16 :: "jpeg_compress_struct \<Rightarrow> us_frame \<Rightarrow> nat \<Rightarrow> jpeg_compress_struct option" where
  "jpeg_write_scanlines_nv16 jpeg frame padding =
     do {
       rgb \<leftarrow> nv16_to_rgb24 (data frame) (replicate (width frame * height frame * 3) 0)
                (width frame) (height frame);
       nv16_scanlines frame padding rgb 0 jpeg
     }"

function nv24_scanlines :: "us_frame \<Rightarrow> nat \<Rightarrow> u8 list \<Rightarrow> nat \<Rightarrow> jpeg_compress_struct \<Rightarrow> jpeg_compress_struct option" where
  "nv24_scanlines frame padding rgb d jpeg =
     (if next_scanline jpeg < height frame then
        (case rd_row rgb d (width frame * 3) of
           None \<Rightarrow> None
         | Some row \<Rightarrow>
             nv24_scanlines frame padding rgb (d + (width frame * 3 + padding))
               (jpeg_write_scanlines jpeg row))
      else Some jpeg)"
  by pat_completeness auto
termination
  by (relation "measure (\<lambda>(frame, padding, rgb, d, jpeg). height frame - next_scanline jpeg)")
     (auto simp: jpeg_write_scanlines_def)

declare nv24_scanlines.simps [simp del]

definition jpeg_write_scanlines_nv24 :: "jpeg_compress_struct \<Rightarrow> us_frame \<Rightarrow> nat \<Rightarrow> jpeg_compress_struct option" where
  "jpeg_write_scanlines_nv24 jpeg frame padding =
     do {
       rgb \<leftarrow> nv24_to_rgb24 (data frame) (replicate (width frame * height frame * 3) 0)
                (width frame) (height frame);
       nv24_scanlines frame padding rgb 0 jpeg
     }"

text \<open>
  The three bytes the semi-planar converters store for one pixel, as a function of its
  luma byte and its chroma pair (used to state the results about the three converters).
\<close>

definition nv_chan :: "u8 \<Rightarrow> u8 \<Rightarrow> u8 \<Rightarrow> u8 list" where
  "nv_chan yb ub vb =
     [word_of_int (clamp255 (drop_bit 8 (298 * (uint yb - 16) + 409 * (uint vb - 128) + 128))),
      word_of_int (clamp255 (drop_bit 8 (298 * (uint yb - 16) - 100 * (uint ub - 128)
                                          - 208 * (uint vb - 128) + 128))),
      word_of_int (clamp255 (drop_bit 8 (298 * (uint yb - 16) + 516 * (uint ub - 128) + 128)))]"

subsection \<open>The destination manager\<close>

definition JPEG_OUTPUT_BUFFER_SIZE :: nat where
  "JPEG_OUTPUT_BUFFER_SIZE = 4096"

text \<open>
  \<open>_jpeg_dest_manager_s\<close>: the two cursor fields of the library's
  \<open>jpeg_destination_mgr\<close>, the chunk buffer and the destination frame.
  \<open>next_output_byte\<close> is the offset of the write cursor in \<open>buf\<close>. The \<open>size_t\<close>
  counts are natural numbers; \<open>free_in_buffer\<close> never exceeds the buffer size, so the
  subtraction in \<open>_jpeg_term_destination\<close> does not wrap.
\<close>

record jpeg_dest_manager_s =
  next_output_byte :: nat
  free_in_buffer :: nat
  buf :: "u8 list"
  dest_frame :: us_frame

text \<open>
  Modelled from the spec: \<open>us_frame_append_data\<close> is defined outside this file. The
  Streaming Sink "appends the full chunk to the Destination Frame's buffer (growing
  destination capacity as needed)", and the Destination Frame has "an append-only byte
  buffer with a used length distinct from allocated capacity": the \<open>sz\<close> bytes at
  \<open>src\<close> are written behind the \<open>used\<close> bytes of the frame and \<open>used\<close> grows by
  \<open>sz\<close>.
\<close>

definition us_frame_append_data :: "us_frame \<Rightarrow> u8 list \<Rightarrow> nat \<Rightarrow> us_frame" where
  "us_frame_append_data fr src sz =
     fr\<lparr>data := take (used fr) (data fr) @ take sz src, used := used fr + sz\<rparr>"

text \<open>
  \<open>_jpeg_set_dest_frame\<close>: the manager (allocated here when the compressor has none)
  gets the three callbacks and the frame, and the frame's \<open>used\<close> is reset.
\<close>

definition jpeg_set_dest_frame :: "jpeg_dest_manager_s \<Rightarrow> us_frame \<Rightarrow> jpeg_dest_manager_s" where
  "jpeg_set_dest_frame dest fr = dest\<lparr>dest_frame := fr\<lparr>used := 0\<rparr>\<rparr>"

text \<open>
  \<open>_jpeg_init_destination\<close>; \<open>mem\<close> is the block of \<open>JPEG_OUTPUT_BUFFER_SIZE\<close>
  bytes that the library's allocator returns (its contents are not specified).
\<close>

definition jpeg_init_destination :: "jpeg_dest_manager_s \<Rightarrow> u8 list \<Rightarrow> jpeg_dest_manager_s" where
  "jpeg_init_destination dest mem =
     dest\<lparr>buf := mem, next_output_byte := 0, free_in_buffer := JPEG_OUTPUT_BUFFER_SIZE\<rparr>"

text \<open>\<open>_jpeg_empty_output_buffer\<close> (it always returns \<open>TRUE\<close>).\<close>

definition jpeg_empty_output_buffer :: "jpeg_dest_manager_s \<Rightarrow> jpeg_dest_manager_s" where
  "jpeg_empty_output_buffer dest =
     dest\<lparr>dest_frame := us_frame_append_data (dest_frame dest) (buf dest) JPEG_OUTPUT_BUFFER_SIZE,
          next_output_byte := 0,
          free_in_buffer := JPEG_OUTPUT_BUFFER_SIZE\<rparr>"

text \<open>\<open>_jpeg_term_destination\<close>.\<close>

definition jpeg_term_destination :: "jpeg_dest_manager_s \<Rightarrow> jpeg_dest_manager_s" where
  "jpeg_term_destination dest =
     (let final = JPEG_OUTPUT_BUFFER_SIZE - free_in_buffer dest
      in dest\<lparr>dest_frame := us_frame_append_data (dest_frame dest) (buf dest) final\<rparr>)"

text \<open>
  The compressor's side of the contract, which belongs to the external library: it
  stores each byte of its output at the cursor, advances the cursor, decrements
  \<open>free_in_buffer\<close>, and calls \<open>empty_output_buffer\<close> when that count reaches zero. The
  second component counts these calls.
\<close>

definition emit_byte :: "jpeg_dest_manager_s \<times> nat \<Rightarrow> u8 \<Rightarrow> jpeg_dest_manager_s \<times> nat" where
  "emit_byte s b =
     (let dest = fst s;
          dest1 = dest\<lparr>buf := (buf dest)[next_output_byte dest := b],
                       next_output_byte := next_output_byte dest + 1,
                       free_in_buffer := free_in_buffer dest - 1\<rparr>
      in if free_in_buffer dest1 = 0 then (jpeg_empty_output_buffer dest1, snd s + 1)
         else (dest1, snd s))"

primrec compressor_writes :: "jpeg_dest_manager_s \<times> nat \<Rightarrow> u8 list \<Rightarrow> jpeg_dest_manager_s \<times> nat" where
  "compressor_writes s [] = s"
| "compressor_writes s (b # bs) = compressor_writes (emit_byte s b) bs"

text \<open>
  What holds between two calls of the compressor, after it has written the bytes \<open>bs\<close>
  and called \<open>empty_output_buffer\<close> \<open>n\<close> times (used in the proofs).
\<close>

definition sink_inv :: "jpeg_dest_manager_s \<Rightarrow> nat \<Rightarrow> u8 list \<Rightarrow> bool" where
  "sink_inv dest n bs \<longleftrightarrow>
     length (buf dest) = JPEG_OUTPUT_BUFFER_SIZE
   \<and> next_output_byte dest + free_in_buffer dest = JPEG_OUTPUT_BUFFER_SIZE
   \<and> 0 < free_in_buffer dest
   \<and> used (dest_frame dest) = JPEG_OUTPUT_BUFFER_SIZE * n
   \<and> used (dest_frame dest) \<le> length (data (dest_frame dest))
   \<and> take (used (dest_frame dest)) (data (dest_frame dest))
        @ take (next_output_byte dest) (buf dest) = bs"

subsection \<open>The entry point\<close>

text \<open>The pixel format codes of \<open>linux/videodev2.h\<close> (\<open>v4l2_fourcc\<close>).\<close>

definition V4L2_PIX_FMT_YUYV :: "32 word" where "V4L2_PIX_FMT_YUYV = 0x56595559"
definition V4L2_PIX_FMT_UYVY :: "32 word" where "V4L2_PIX_FMT_UYVY = 0x59565955"
definition V4L2_PIX_FMT_RGB565 :: "32 word" where "V4L2_PIX_FMT_RGB565 = 0x50424752"
definition V4L2_PIX_FMT_NV12 :: "32 word" where "V4L2_PIX_FMT_NV12 = 0x3231564E"
definition V4L2_PIX_FMT_NV16 :: "32 word" where "V4L2_PIX_FMT_NV16 = 0x3631564E"
definition V4L2_PIX_FMT_BGR24 :: "32 word" where "V4L2_PIX_FMT_BGR24 = 0x33524742"
definition V4L2_PIX_FMT_RGB24 :: "32 word" where "V4L2_PIX_FMT_RGB24 = 0x33424752"
definition V4L2_PIX_FMT_NV24 :: "32 word" where "V4L2_PIX_FMT_NV24 = 0x3432564E"
definition V4L2_PIX_FMT_JPEG :: "32 word" where "V4L2_PIX_FMT_JPEG = 0x4745504A"

text \<open>
  The two ways the entry point can fail to return: the \<open>assert\<close> of the \<open>default\<close>
  branch, and a feeder that leaves its buffers (undefined behaviour).
\<close>

datatype error = Assertion_failed | Out_of_bounds

text \<open>
  Modelled from the spec: \<open>us_frame_encoding_begin\<close> is defined outside this file. It
  must "reset destination used-length to zero and mark its format as compressed-image".
\<close>

definition us_frame_encoding_begin :: "us_frame \<Rightarrow> us_frame \<Rightarrow> 32 word \<Rightarrow> us_frame" where
  "us_frame_encoding_begin src dest fmt = dest\<lparr>format := fmt, used := 0\<rparr>"

text \<open>
  The end of \<open>us_cpu_encoder_compress\<close>, after the \<open>switch\<close>: the library has turned
  the rows it was given into the byte stream \<open>codec width height quality rows\<close> and
  written it through the destination manager, and \<open>jpeg_finish_compress\<close> calls
  \<open>term_destination\<close>. The function \<open>codec\<close> stands for the external compressor.
\<close>

definition jpeg_finish_compress ::
  "(nat \<Rightarrow> nat \<Rightarrow> nat \<Rightarrow> u8 list list \<Rightarrow> u8 list) \<Rightarrow> us_frame \<Rightarrow> nat \<Rightarrow> jpeg_dest_manager_s
     \<Rightarrow> jpeg_compress_struct option \<Rightarrow> error + us_frame" where
  "jpeg_finish_compress codec src quality dest r =
     (case r of
        None \<Rightarrow> Inl Out_of_bounds
      | Some jpeg \<Rightarrow>
          Inr (dest_frame (jpeg_term_destination
            (fst (compressor_writes (dest, 0)
               (codec (width src) (height src) quality (written jpeg)))))))"

text \<open>
  \<open>us_cpu_encoder_compress\<close>. \<open>padding\<close> is the value of \<open>us_frame_get_padding\<close>
  for the source frame (defined outside this file), \<open>mgr\<close> and \<open>mem\<close> are the blocks
  the library's allocator returns for the destination manager and its chunk buffer.
  \<open>jpeg_start_compress\<close> calls \<open>init_destination\<close>; the \<open>switch\<close> selects the feeder.
\<close>

definition us_cpu_encoder_compress ::
  "(nat \<Rightarrow> nat \<Rightarrow> nat \<Rightarrow> u8 list list \<Rightarrow> u8 list) \<Rightarrow> jpeg_dest_manager_s \<Rightarrow> u8 list \<Rightarrow> nat
     \<Rightarrow> us_frame \<Rightarrow> us_frame \<Rightarrow> nat \<Rightarrow> error + us_frame" where
  "us_cpu_encoder_compress codec mgr mem padding src dest quality =
     (let dest = us_frame_encoding_begin src dest V4L2_PIX_FMT_JPEG;
          mgr = jpeg_set_dest_frame mgr dest;
          mgr = jpeg_init_destination mgr mem;
          jpeg = jpeg_start_compress
      in if format src = V4L2_PIX_FMT_YUYV then
           jpeg_finish_compress codec src quality mgr (jpeg_write_scanlines_yuyv jpeg src padding)
         else if format src = V4L2_PIX_FMT_UYVY then
           jpeg_finish_compress codec src quality mgr (jpeg_write_scanlines_uyvy jpeg src padding)
         else if format src = V4L2_PIX_FMT_RGB565 then
           jpeg_finish_compress codec src quality mgr (jpeg_write_scanlines_rgb565 jpeg src padding)
         else if format src = V4L2_PIX_FMT_NV12 then
           jpeg_finish_compress codec src quality mgr (jpeg_write_scanlines_nv12 jpeg src padding)
         else if format src = V4L2_PIX_FMT_NV16 then
           jpeg_finish_compress codec src quality mgr (jpeg_write_scanlines_nv16 jpeg src padding)
         else if format src = V4L2_PIX_FMT_BGR24 then
           jpeg_finish_compress codec src quality mgr (jpeg_write_scanlines_bgr24 jpeg src padding)
         else if format src = V4L2_PIX_FMT_RGB24 then
           jpeg_finish_compress codec src quality mgr (jpeg_write_scanlines_rgb24 jpeg src padding)
         else if format src = V4L2_PIX_FMT_NV24 then
           jpeg_finish_compress codec src quality mgr (jpeg_write_scanlines_nv24 jpeg src padding)
         else Inl Assertion_failed)"

subsection \<open>Example frames\<close>

definition rgb565_white_frame :: us_frame where
  "rgb565_white_frame = \<lparr>width = 1, height = 1, format = 0, data = [255, 255], used = 2\<rparr>"

definition yuv_example_frame :: us_frame where
  "yuv_example_frame = \<lparr>width = 2, height = 1, format = 0, data = [0, 255, 16, 255], used = 4\<rparr>"

definition yuv_gray_frame :: us_frame where
  "yuv_gray_frame = \<lparr>width = 2, height = 1, format = 0, data = [128, 128, 128, 128], used = 4\<rparr>"

definition bgr_example_frame :: us_frame where
  "bgr_example_frame =
     \<lparr>width = 1, height = 2, format = 0, data = [1, 2, 3, 99, 4, 5, 6, 98], used = 8\<rparr>"

definition rgb_example_data :: "u8 list" where
  "rgb_example_data = [3, 2, 1, 77, 6, 5, 4, 76]"

definition nv12_example_data :: "u8 list" where
  "nv12_example_data = [16, 81, 145, 235, 90, 240]"


definition sink_example_frame :: us_frame where
  "sink_example_frame = \<lparr>width = 1, height = 1, format = 0, data = [7, 7], used = 2\<rparr>"

definition sink_example_mgr :: jpeg_dest_manager_s where
  "sink_example_mgr =
     \<lparr>next_output_byte = 0, free_in_buffer = 0, buf = [], dest_frame = sink_example_frame\<rparr>"

definition example_codec :: "nat \<Rightarrow> nat \<Rightarrow> nat \<Rightarrow> u8 list list \<Rightarrow> u8 list" where
  "example_codec w h quality rows = concat rows"

definition rgb565_tagged_frame :: us_frame where
  "rgb565_tagged_frame = rgb565_white_frame\<lparr>format := V4L2_PIX_FMT_RGB565\<rparr>"

text \<open>
  Two NV16 frames of width 2, height 1 and one byte of padding per row, with the same pixel
  (luma 16, 16 and the chroma pair 128, 128) and different padding bytes; and an NV12 frame
  of width 2, height 2 with one byte of padding per row.
\<close>

definition nv16_padded_frame :: "u8 \<Rightarrow> us_frame" where
  "nv16_padded_frame pad =
     \<lparr>width = 2, height = 1, format = V4L2_PIX_FMT_NV16,
      data = [16, 16, pad, 128, 128, pad], used = 6\<rparr>"

definition nv12_padded_frame :: us_frame where
  "nv12_padded_frame =
     \<lparr>width = 2, height = 2, format = V4L2_PIX_FMT_NV12,
      data = [16, 16, 0, 16, 16, 0, 128, 128, 0], used = 9\<rparr>"

text \<open>
  Two YUYV frames of width 3, height 2 and one byte of padding per row. A row holds the
  bytes \<open>Y0 U Y1 V Y2 U\<close> and the padding byte, so the second row starts at byte 7. In
  the second frame every chroma byte (and every padding byte) is 128.
\<close>

definition yuyv_odd_frame :: us_frame where
  "yuyv_odd_frame =
     \<lparr>width = 3, height = 2, format = V4L2_PIX_FMT_YUYV,
      data = [30, 128, 30, 128, 30, 128, 0, 200, 90, 200, 240, 200, 90, 0], used = 14\<rparr>"

definition yuyv_odd_gray_frame :: us_frame where
  "yuyv_odd_gray_frame =
     \<lparr>width = 3, height = 2, format = V4L2_PIX_FMT_YUYV,
      data = [30, 128, 30, 128, 30, 128, 128, 30, 128, 30, 128, 30, 128, 128], used = 14\<rparr>"

section \<open>Proofs\<close>

lemma length_put3: "length (put3 lb ptr ch) = length lb"
  by (simp add: put3_def)

lemma put3_nth_in:
  assumes "ptr + 2 < length lb" and "c < 3"
  shows "put3 lb ptr ch ! (ptr + c) = ch ! c"
proof -
  from \<open>c < 3\<close> consider "c = 0" | "c = 1" | "c = 2" by linarith
  then show ?thesis using assms(1) by cases (simp_all add: put3_def nth_list_update)
qed

lemma put3_nth_out:
  assumes "k < ptr \<or> ptr + 3 \<le> k"
  shows "put3 lb ptr ch ! k = lb ! k"
  using assms by (auto simp: put3_def nth_list_update)

lemma rgb565_pixel_Some:
  assumes "d + 1 < length mem" and "ptr + 2 < length lb"
  shows "rgb565_pixel mem lb ptr d = Some (put3 lb ptr (rgb565_chan (mem ! d) (mem ! (d + 1))))"
  using assms by (simp add: rgb565_pixel_def rd_def wr_def rgb565_chan_def put3_def)

lemma rgb565_line_spec:
  assumes "x \<le> w" and "d + 2 * (w - x) \<le> length mem" and "ptr + 3 * (w - x) \<le> length lb"
  shows "\<exists>lb'. rgb565_line mem w lb ptr d x = Some (lb', d + 2 * (w - x))
           \<and> length lb' = length lb
           \<and> (\<forall>k<ptr. lb' ! k = lb ! k)
           \<and> (\<forall>m<w - x. \<forall>c<3. lb' ! (ptr + 3 * m + c) =
                  rgb565_chan (mem ! (d + 2 * m)) (mem ! (d + 2 * m + 1)) ! c)"
  using assms
proof (induction "w - x" arbitrary: x lb ptr d)
  case 0
  then show ?case by (subst rgb565_line.simps) simp
next
  case (Suc n)
  then have xw: "x < w" and n: "n = w - (x + 1)" by linarith+
  let ?lb1 = "put3 lb ptr (rgb565_chan (mem ! d) (mem ! (d + 1)))"
  have b: "ptr + 2 < length lb" using Suc.prems xw by linarith
  have px: "rgb565_pixel mem lb ptr d = Some ?lb1"
    using Suc.prems xw b by (intro rgb565_pixel_Some) linarith+
  have "\<exists>lb'. rgb565_line mem w ?lb1 (ptr + 3) (d + 2) (x + 1) = Some (lb', d + 2 + 2 * (w - (x + 1)))
           \<and> length lb' = length ?lb1
           \<and> (\<forall>k<ptr + 3. lb' ! k = ?lb1 ! k)
           \<and> (\<forall>m<w - (x + 1). \<forall>c<3. lb' ! (ptr + 3 + 3 * m + c) =
                  rgb565_chan (mem ! (d + 2 + 2 * m)) (mem ! (d + 2 + 2 * m + 1)) ! c)"
    using Suc.prems xw by (intro Suc.hyps(1) n) (simp_all add: length_put3)
  then obtain lb' where
    run: "rgb565_line mem w ?lb1 (ptr + 3) (d + 2) (x + 1) = Some (lb', d + 2 + 2 * (w - (x + 1)))"
    and len: "length lb' = length lb"
    and keep: "\<And>k. k < ptr + 3 \<Longrightarrow> lb' ! k = ?lb1 ! k"
    and rest: "\<And>m c. m < w - (x + 1) \<Longrightarrow> c < 3 \<Longrightarrow> lb' ! (ptr + 3 + 3 * m + c) =
                  rgb565_chan (mem ! (d + 2 + 2 * m)) (mem ! (d + 2 + 2 * m + 1)) ! c"
    by (auto simp: length_put3)
  have fin: "d + 2 + 2 * (w - (x + 1)) = d + 2 * (w - x)" using xw by simp
  have res: "rgb565_line mem w lb ptr d x = Some (lb', d + 2 * (w - x))"
    using xw px run fin by (subst rgb565_line.simps) simp
  have old: "\<forall>k<ptr. lb' ! k = lb ! k"
    using keep by (simp add: put3_nth_out)
  have new: "lb' ! (ptr + 3 * m + c) = rgb565_chan (mem ! (d + 2 * m)) (mem ! (d + 2 * m + 1)) ! c"
    if "m < w - x" and "c < 3" for m c
  proof (cases m)
    case 0
    have "lb' ! (ptr + c) = ?lb1 ! (ptr + c)" using keep that by simp
    also have "\<dots> = rgb565_chan (mem ! d) (mem ! (d + 1)) ! c"
      using b that(2) by (rule put3_nth_in)
    finally show ?thesis using 0 by simp
  next
    case (Suc m')
    then have "m' < w - (x + 1)" using that by linarith
    from rest[OF this that(2)] show ?thesis using Suc by (simp add: algebra_simps)
  qed
  show ?case using res len old new by blast
qed


lemma rgb565_rows_spec:
  assumes "next_scanline jpeg \<le> height frame"
    and "length lb = 3 * width frame"
    and "d + (height frame - next_scanline jpeg) * (2 * width frame + padding) \<le> length (data frame)"
  shows "\<exists>rows. rgb565_rows frame padding lb d jpeg =
             Some (jpeg\<lparr>next_scanline := height frame, written := written jpeg @ rows\<rparr>)
           \<and> length rows = height frame - next_scanline jpeg
           \<and> (\<forall>r<length rows. length (rows ! r) = 3 * width frame
                \<and> (\<forall>x<width frame. \<forall>c<3. rows ! r ! (3 * x + c) =
                      rgb565_chan (data frame ! (d + r * (2 * width frame + padding) + 2 * x))
                                  (data frame ! (d + r * (2 * width frame + padding) + 2 * x + 1)) ! c))"
  using assms
proof (induction "height frame - next_scanline jpeg" arbitrary: jpeg lb d)
  case 0
  then have "rgb565_rows frame padding lb d jpeg = Some jpeg"
    by (subst rgb565_rows.simps) simp
  with 0 show ?case by simp
next
  case (Suc n)
  let ?w = "width frame" and ?s = "2 * width frame + padding"
  from Suc have lt: "next_scanline jpeg < height frame" by linarith
  have sz: "d + ?s + n * ?s \<le> length (data frame)"
    using Suc.prems(3) Suc.hyps(2)[symmetric] by (simp add: algebra_simps)
  have "\<exists>lb'. rgb565_line (data frame) ?w lb 0 d 0 = Some (lb', d + 2 * (?w - 0))
           \<and> length lb' = length lb
           \<and> (\<forall>k<0. lb' ! k = lb ! k)
           \<and> (\<forall>m<?w - 0. \<forall>c<3. lb' ! (0 + 3 * m + c) =
                  rgb565_chan (data frame ! (d + 2 * m)) (data frame ! (d + 2 * m + 1)) ! c)"
    using Suc.prems(2) sz by (intro rgb565_line_spec) simp_all
  then obtain lb' where
    line: "rgb565_line (data frame) ?w lb 0 d 0 = Some (lb', d + 2 * ?w)"
    and len: "length lb' = 3 * ?w"
    and px: "\<And>m c. m < ?w \<Longrightarrow> c < 3 \<Longrightarrow> lb' ! (3 * m + c) =
                  rgb565_chan (data frame ! (d + 2 * m)) (data frame ! (d + 2 * m + 1)) ! c"
    using Suc.prems(2) by auto
  let ?jpeg1 = "jpeg_write_scanlines jpeg lb'"
  have ns1: "next_scanline ?jpeg1 = next_scanline jpeg + 1"
    by (simp add: jpeg_write_scanlines_def)
  have n1: "height frame - next_scanline ?jpeg1 = n"
    using Suc.hyps(2) ns1 by linarith
  have "\<exists>rows. rgb565_rows frame padding lb' (d + 2 * ?w + padding) ?jpeg1 =
             Some (?jpeg1\<lparr>next_scanline := height frame, written := written ?jpeg1 @ rows\<rparr>)
           \<and> length rows = height frame - next_scanline ?jpeg1
           \<and> (\<forall>r<length rows. length (rows ! r) = 3 * width frame
                \<and> (\<forall>x<width frame. \<forall>c<3. rows ! r ! (3 * x + c) =
                      rgb565_chan (data frame ! (d + 2 * ?w + padding + r * ?s + 2 * x))
                                  (data frame ! (d + 2 * ?w + padding + r * ?s + 2 * x + 1)) ! c))"
  proof (intro Suc.hyps(1))
    show "n = height frame - next_scanline ?jpeg1" by (rule n1[symmetric])
    show "next_scanline ?jpeg1 \<le> height frame" using lt ns1 by simp
    show "length lb' = 3 * ?w" by (rule len)
    show "d + 2 * ?w + padding + (height frame - next_scanline ?jpeg1) * ?s \<le> length (data frame)"
      unfolding n1 using sz by (simp add: algebra_simps)
  qed
  then obtain rows where
    run: "rgb565_rows frame padding lb' (d + 2 * ?w + padding) ?jpeg1 =
             Some (?jpeg1\<lparr>next_scanline := height frame, written := written ?jpeg1 @ rows\<rparr>)"
    and rlen: "length rows = n"
    and rpx: "\<And>r. r < n \<Longrightarrow> length (rows ! r) = 3 * ?w
                \<and> (\<forall>x<?w. \<forall>c<3. rows ! r ! (3 * x + c) =
                      rgb565_chan (data frame ! (d + 2 * ?w + padding + r * ?s + 2 * x))
                                  (data frame ! (d + 2 * ?w + padding + r * ?s + 2 * x + 1)) ! c)"
    using n1 by auto
  have res: "rgb565_rows frame padding lb d jpeg =
          Some (jpeg\<lparr>next_scanline := height frame, written := written jpeg @ (lb' # rows)\<rparr>)"
    using lt line run by (subst rgb565_rows.simps) (simp add: jpeg_write_scanlines_def)
  have all: "length ((lb' # rows) ! r) = 3 * ?w
       \<and> (\<forall>x<?w. \<forall>c<3. (lb' # rows) ! r ! (3 * x + c) =
              rgb565_chan (data frame ! (d + r * ?s + 2 * x)) (data frame ! (d + r * ?s + 2 * x + 1)) ! c)"
    if "r < Suc n" for r
  proof (cases r)
    case 0
    then show ?thesis using len px by simp
  next
    case (Suc r')
    then have "r' < n" using that by simp
    from rpx[OF this] show ?thesis using Suc by (simp add: algebra_simps)
  qed
  show ?case
    using res rlen all Suc.hyps(2)[symmetric] by (intro exI[of _ "lb' # rows"]) simp
qed


lemma rgb565_feeder_spec:
  assumes "height frame * (2 * width frame + padding) \<le> length (data frame)"
  shows "\<exists>rows. jpeg_write_scanlines_rgb565 jpeg_start_compress frame padding =
             Some \<lparr>next_scanline = height frame, written = rows\<rparr>
           \<and> length rows = height frame
           \<and> (\<forall>r<height frame. length (rows ! r) = 3 * width frame
                \<and> (\<forall>x<width frame. \<forall>c<3. rows ! r ! (3 * x + c) =
                      rgb565_chan (data frame ! (r * (2 * width frame + padding) + 2 * x))
                                  (data frame ! (r * (2 * width frame + padding) + 2 * x + 1)) ! c))"
proof -
  let ?j = "\<lparr>next_scanline = 0, written = []\<rparr>"
  have "\<exists>rows. rgb565_rows frame padding (replicate (width frame * 3) 0) 0 ?j =
             Some (?j\<lparr>next_scanline := height frame, written := written ?j @ rows\<rparr>)
           \<and> length rows = height frame - next_scanline ?j
           \<and> (\<forall>r<length rows. length (rows ! r) = 3 * width frame
                \<and> (\<forall>x<width frame. \<forall>c<3. rows ! r ! (3 * x + c) =
                      rgb565_chan (data frame ! (0 + r * (2 * width frame + padding) + 2 * x))
                                  (data frame ! (0 + r * (2 * width frame + padding) + 2 * x + 1)) ! c))"
    using assms by (intro rgb565_rows_spec) simp_all
  then obtain rows where
    "rgb565_rows frame padding (replicate (width frame * 3) 0) 0 ?j =
        Some \<lparr>next_scanline = height frame, written = rows\<rparr>"
    and "length rows = height frame"
    and "\<forall>r<length rows. length (rows ! r) = 3 * width frame
                \<and> (\<forall>x<width frame. \<forall>c<3. rows ! r ! (3 * x + c) =
                      rgb565_chan (data frame ! (r * (2 * width frame + padding) + 2 * x))
                                  (data frame ! (r * (2 * width frame + padding) + 2 * x + 1)) ! c)"
    by auto
  then show ?thesis
    unfolding jpeg_write_scanlines_rgb565_def jpeg_start_compress_def by metis
qed

lemma and7_mod8: "x AND 7 = 0 \<Longrightarrow> unat (x::u8) mod 8 = 0"
proof -
  assume a: "x AND 7 = 0"
  have "unat x mod 8 = unat (x mod 2 ^ 3)"
    by (simp add: unat_mod)
  also have "x mod 2 ^ 3 = take_bit 3 x"
    by (simp only: take_bit_eq_mod)
  also have "take_bit 3 x = x AND mask 3"
    by (simp only: take_bit_eq_mask)
  also have "(mask 3 :: u8) = 7" by (simp add: mask_eq_exp_minus_1)
  finally show ?thesis using a by simp
qed

lemma and3_mod4: "x AND 3 = 0 \<Longrightarrow> unat (x::u8) mod 4 = 0"
proof -
  assume a: "x AND 3 = 0"
  have "unat x mod 4 = unat (x mod 2 ^ 2)"
    by (simp add: unat_mod)
  also have "x mod 2 ^ 2 = take_bit 2 x"
    by (simp only: take_bit_eq_mod)
  also have "take_bit 2 x = x AND mask 2"
    by (simp only: take_bit_eq_mask)
  also have "(mask 2 :: u8) = 3" by (simp add: mask_eq_exp_minus_1)
  finally show ?thesis using a by simp
qed

lemma u8_mod8_le: "unat (x::u8) mod 8 = 0 \<Longrightarrow> unat x \<le> 248"
  using unsigned_less[of x, where 'a = nat] by simp presburger

lemma u8_mod4_le: "unat (x::u8) mod 4 = 0 \<Longrightarrow> unat x \<le> 252"
  using unsigned_less[of x, where 'a = nat] by simp presburger

lemma rgb565_chan_red: "unat (rgb565_chan d0 d1 ! 0) mod 8 = 0"
  by (rule and7_mod8) (simp add: rgb565_chan_def word_bw_assocs)

lemma rgb565_chan_green: "unat (rgb565_chan d0 d1 ! 1) mod 4 = 0"
proof (rule and3_mod4)
  have m: "(3::u8) = mask 2" by (simp add: mask_eq_exp_minus_1)
  have k: "(2016::32 word) = push_bit 5 (mask 6)"
    by (simp add: mask_eq_exp_minus_1 push_bit_eq_mult)
  have "(ucast (drop_bit 3 ((push_bit 8 (ucast d1) + ucast d0 :: 32 word) AND 2016)) :: u8) AND 3 = 0"
    unfolding m k by (rule bit_eqI) (auto simp: bit_simps)
  then show "rgb565_chan d0 d1 ! 1 AND 3 = 0"
    by (simp add: rgb565_chan_def)
qed

lemma rgb565_chan_blue: "unat (rgb565_chan d0 d1 ! 2) mod 8 = 0"
proof (rule and7_mod8)
  have m: "(7::u8) = mask 3" by (simp add: mask_eq_exp_minus_1)
  have e: "((ucast d0 :: 32 word) AND 31) * 8 = push_bit 3 ((ucast d0 :: 32 word) AND 31)"
    by (simp add: push_bit_eq_mult)
  have "(ucast (((ucast d0 :: 32 word) AND 31) * 8) :: u8) AND 7 = 0"
    unfolding m e by (rule bit_eqI) (auto simp: bit_simps)
  then show "rgb565_chan d0 d1 ! 2 AND 7 = 0"
    by (simp add: rgb565_chan_def)
qed

lemma rgb565_chan_white: "rgb565_chan 255 255 = [248, 252, 248]"
  by (simp add: rgb565_chan_def)

subsection \<open>The YUYV feeder\<close>

lemma yuyv_pixel_Some:
  assumes "d + 3 < length mem" and "ptr + 2 < length lb" and "z \<le> 1"
  shows "yuyv_pixel mem lb ptr d z =
           Some (put3 lb ptr (yuv_chan (mem ! (d + 2 * z)) (mem ! (d + 1)) (mem ! (d + 3))))"
proof -
  from assms(3) consider "z = 0" | "z = 1" by linarith
  then show ?thesis
    using assms(1,2)
    by cases (simp_all add: yuyv_pixel_def rd_def wr_def yuv_chan_def put3_def Let_def)
qed

lemma yuyv_line_spec:
  assumes "x \<le> w" and "z \<le> 1"
    and "d + 4 * ((w - x + z + 1) div 2) \<le> length mem"
    and "ptr + 3 * (w - x) \<le> length lb"
  shows "\<exists>lb'. yuyv_line mem w lb ptr d z x =
               Some (lb', d + 4 * ((w - x + z) div 2), (w - x + z) mod 2)
           \<and> length lb' = length lb
           \<and> (\<forall>k<ptr. lb' ! k = lb ! k)
           \<and> (\<forall>m<w - x. \<forall>c<3. lb' ! (ptr + 3 * m + c) =
                  yuv_chan (mem ! (d + 4 * ((m + z) div 2) + 2 * ((m + z) mod 2)))
                           (mem ! (d + 4 * ((m + z) div 2) + 1))
                           (mem ! (d + 4 * ((m + z) div 2) + 3)) ! c)"
  using assms
proof (induction "w - x" arbitrary: x lb ptr d z)
  case 0
  then have "z = 0 \<or> z = 1" by linarith
  with 0 show ?case by (subst yuyv_line.simps) auto
next
  case (Suc n)
  then have xw: "x < w" and n: "n = w - (x + 1)" by linarith+
  from Suc.prems(2) have zc: "z = 0 \<or> z = 1" by linarith
  let ?lb1 = "put3 lb ptr (yuv_chan (mem ! (d + 2 * z)) (mem ! (d + 1)) (mem ! (d + 3)))"
  let ?d1 = "if z \<noteq> 0 then d + 4 else d" and ?z1 = "if z \<noteq> 0 then 0 else z + 1"
  have b: "ptr + 2 < length lb" using Suc.prems xw by linarith
  have wx: "w - x = Suc n" using Suc.hyps(2) by simp
  have rdb: "d + 3 < length mem"
    using Suc.prems(3) zc unfolding wx by (auto simp: algebra_simps) 
  have px: "yuyv_pixel mem lb ptr d z = Some ?lb1"
    using rdb b Suc.prems(2) by (rule yuyv_pixel_Some)
  have z1: "?z1 \<le> 1" using zc by auto
  have bnd: "?d1 + 4 * ((w - (x + 1) + ?z1 + 1) div 2) \<le> length mem"
    using Suc.prems(3) zc unfolding wx n[symmetric] by auto
  have "\<exists>lb'. yuyv_line mem w ?lb1 (ptr + 3) ?d1 ?z1 (x + 1) =
               Some (lb', ?d1 + 4 * ((w - (x + 1) + ?z1) div 2), (w - (x + 1) + ?z1) mod 2)
           \<and> length lb' = length ?lb1
           \<and> (\<forall>k<ptr + 3. lb' ! k = ?lb1 ! k)
           \<and> (\<forall>m<w - (x + 1). \<forall>c<3. lb' ! (ptr + 3 + 3 * m + c) =
                  yuv_chan (mem ! (?d1 + 4 * ((m + ?z1) div 2) + 2 * ((m + ?z1) mod 2)))
                           (mem ! (?d1 + 4 * ((m + ?z1) div 2) + 1))
                           (mem ! (?d1 + 4 * ((m + ?z1) div 2) + 3)) ! c)"
  proof (rule Suc.hyps(1))
    show "n = w - (x + 1)" by (rule n)
    show "x + 1 \<le> w" using xw by simp
    show "?z1 \<le> 1" by (rule z1)
    show "?d1 + 4 * ((w - (x + 1) + ?z1 + 1) div 2) \<le> length mem" by (rule bnd)
    show "ptr + 3 + 3 * (w - (x + 1)) \<le> length ?lb1"
      using Suc.prems(4) xw by (simp add: length_put3)
  qed
  then obtain lb' where
    run: "yuyv_line mem w ?lb1 (ptr + 3) ?d1 ?z1 (x + 1) =
               Some (lb', ?d1 + 4 * ((n + ?z1) div 2), (n + ?z1) mod 2)"
    and len: "length lb' = length lb"
    and keep: "\<And>k. k < ptr + 3 \<Longrightarrow> lb' ! k = ?lb1 ! k"
    and rest: "\<And>m c. m < n \<Longrightarrow> c < 3 \<Longrightarrow> lb' ! (ptr + 3 + 3 * m + c) =
                  yuv_chan (mem ! (?d1 + 4 * ((m + ?z1) div 2) + 2 * ((m + ?z1) mod 2)))
                           (mem ! (?d1 + 4 * ((m + ?z1) div 2) + 1))
                           (mem ! (?d1 + 4 * ((m + ?z1) div 2) + 3)) ! c"
    unfolding n[symmetric] by (auto simp: length_put3)
  have fd: "?d1 + 4 * ((n + ?z1) div 2) = d + 4 * ((Suc n + z) div 2)"
    using zc by auto
  have fz: "(n + ?z1) mod 2 = (Suc n + z) mod 2"
    using zc by auto
  have res: "yuyv_line mem w lb ptr d z x =
        Some (lb', d + 4 * ((w - x + z) div 2), (w - x + z) mod 2)"
    unfolding wx fd[symmetric] fz[symmetric]
    using xw px run by (subst yuyv_line.simps) auto
  have old: "\<forall>k<ptr. lb' ! k = lb ! k"
    using keep by (simp add: put3_nth_out)
  have new: "lb' ! (ptr + 3 * m + c) =
        yuv_chan (mem ! (d + 4 * ((m + z) div 2) + 2 * ((m + z) mod 2)))
                 (mem ! (d + 4 * ((m + z) div 2) + 1))
                 (mem ! (d + 4 * ((m + z) div 2) + 3)) ! c"
    if "m < w - x" and "c < 3" for m c
  proof (cases m)
    case 0
    have "lb' ! (ptr + c) = ?lb1 ! (ptr + c)" using keep that by simp
    also have "\<dots> = yuv_chan (mem ! (d + 2 * z)) (mem ! (d + 1)) (mem ! (d + 3)) ! c"
      using b that(2) by (rule put3_nth_in)
    finally show ?thesis using 0 zc by auto
  next
    case (Suc m')
    then have m': "m' < n" using that wx by linarith
    have i1: "?d1 + 4 * ((m' + ?z1) div 2) = d + 4 * ((Suc m' + z) div 2)"
      using zc by auto
    have i2: "(m' + ?z1) mod 2 = (Suc m' + z) mod 2"
      using zc by auto
    have "ptr + 3 * m + c = ptr + 3 + 3 * m' + c" using Suc by simp
    then show ?thesis
      using rest[OF m' that(2)] unfolding i1 i2 Suc by (simp add: add.assoc)
  qed
  show ?case using res len old new by blast
qed


lemma yuyv_line_even:
  assumes "even w" and "d + 2 * w \<le> length mem" and "length lb = 3 * w"
  shows "\<exists>lb'. yuyv_line mem w lb 0 d 0 0 = Some (lb', d + 2 * w, 0)
           \<and> length lb' = 3 * w
           \<and> (\<forall>m<w. \<forall>c<3. lb' ! (3 * m + c) =
                  yuv_chan (mem ! (d + 4 * (m div 2) + 2 * (m mod 2)))
                           (mem ! (d + 4 * (m div 2) + 1))
                           (mem ! (d + 4 * (m div 2) + 3)) ! c)"
proof -
  from assms(1) obtain k where k: "w = 2 * k" by (auto elim: evenE)
  have "\<exists>lb'. yuyv_line mem w lb 0 d 0 0 =
               Some (lb', d + 4 * ((w - 0 + 0) div 2), (w - 0 + 0) mod 2)
           \<and> length lb' = length lb
           \<and> (\<forall>k<0. lb' ! k = lb ! k)
           \<and> (\<forall>m<w - 0. \<forall>c<3. lb' ! (0 + 3 * m + c) =
                  yuv_chan (mem ! (d + 4 * ((m + 0) div 2) + 2 * ((m + 0) mod 2)))
                           (mem ! (d + 4 * ((m + 0) div 2) + 1))
                           (mem ! (d + 4 * ((m + 0) div 2) + 3)) ! c)"
    using assms(2,3) k by (intro yuyv_line_spec) simp_all
  then show ?thesis using assms(3) k by simp
qed

lemma yuyv_rows_spec:
  assumes "even (width frame)"
    and "next_scanline jpeg \<le> height frame"
    and "length lb = 3 * width frame"
    and "d + (height frame - next_scanline jpeg) * (2 * width frame + padding) \<le> length (data frame)"
  shows "\<exists>rows. yuyv_rows frame padding lb d 0 jpeg =
             Some (jpeg\<lparr>next_scanline := height frame, written := written jpeg @ rows\<rparr>)
           \<and> length rows = height frame - next_scanline jpeg
           \<and> (\<forall>r<length rows. length (rows ! r) = 3 * width frame
                \<and> (\<forall>x<width frame. \<forall>c<3. rows ! r ! (3 * x + c) =
                      yuv_chan (data frame ! (d + r * (2 * width frame + padding) + 4 * (x div 2) + 2 * (x mod 2)))
                               (data frame ! (d + r * (2 * width frame + padding) + 4 * (x div 2) + 1))
                               (data frame ! (d + r * (2 * width frame + padding) + 4 * (x div 2) + 3)) ! c))"
  using assms(2-)
proof (induction "height frame - next_scanline jpeg" arbitrary: jpeg lb d)
  case 0
  then have "yuyv_rows frame padding lb d 0 jpeg = Some jpeg"
    by (subst yuyv_rows.simps) simp
  with 0 show ?case by simp
next
  case (Suc n)
  let ?w = "width frame" and ?s = "2 * width frame + padding"
  from Suc have lt: "next_scanline jpeg < height frame" by linarith
  have sz: "d + ?s + n * ?s \<le> length (data frame)"
    using Suc.prems(3) Suc.hyps(2)[symmetric] by (simp add: algebra_simps)
  have "d + 2 * ?w \<le> length (data frame)" using sz by simp
  from yuyv_line_even[OF assms(1) this Suc.prems(2)] obtain lb' where
    line: "yuyv_line (data frame) ?w lb 0 d 0 0 = Some (lb', d + 2 * ?w, 0)"
    and len: "length lb' = 3 * ?w"
    and px: "\<And>m c. m < ?w \<Longrightarrow> c < 3 \<Longrightarrow> lb' ! (3 * m + c) =
                  yuv_chan (data frame ! (d + 4 * (m div 2) + 2 * (m mod 2)))
                           (data frame ! (d + 4 * (m div 2) + 1))
                           (data frame ! (d + 4 * (m div 2) + 3)) ! c"
    by blast
  let ?jpeg1 = "jpeg_write_scanlines jpeg lb'"
  have ns1: "next_scanline ?jpeg1 = next_scanline jpeg + 1"
    by (simp add: jpeg_write_scanlines_def)
  have n1: "height frame - next_scanline ?jpeg1 = n"
    using Suc.hyps(2) ns1 by linarith
  have "\<exists>rows. yuyv_rows frame padding lb' (d + 2 * ?w + padding) 0 ?jpeg1 =
             Some (?jpeg1\<lparr>next_scanline := height frame, written := written ?jpeg1 @ rows\<rparr>)
           \<and> length rows = height frame - next_scanline ?jpeg1
           \<and> (\<forall>r<length rows. length (rows ! r) = 3 * width frame
                \<and> (\<forall>x<width frame. \<forall>c<3. rows ! r ! (3 * x + c) =
                      yuv_chan (data frame ! (d + 2 * ?w + padding + r * ?s + 4 * (x div 2) + 2 * (x mod 2)))
                               (data frame ! (d + 2 * ?w + padding + r * ?s + 4 * (x div 2) + 1))
                               (data frame ! (d + 2 * ?w + padding + r * ?s + 4 * (x div 2) + 3)) ! c))"
  proof (intro Suc.hyps(1))
    show "n = height frame - next_scanline ?jpeg1" by (rule n1[symmetric])
    show "next_scanline ?jpeg1 \<le> height frame" using lt ns1 by simp
    show "length lb' = 3 * ?w" by (rule len)
    show "d + 2 * ?w + padding + (height frame - next_scanline ?jpeg1) * ?s \<le> length (data frame)"
      unfolding n1 using sz by (simp add: algebra_simps)
  qed
  then obtain rows where
    run: "yuyv_rows frame padding lb' (d + 2 * ?w + padding) 0 ?jpeg1 =
             Some (?jpeg1\<lparr>next_scanline := height frame, written := written ?jpeg1 @ rows\<rparr>)"
    and rlen: "length rows = n"
    and rpx: "\<And>r. r < n \<Longrightarrow> length (rows ! r) = 3 * ?w
                \<and> (\<forall>x<?w. \<forall>c<3. rows ! r ! (3 * x + c) =
                      yuv_chan (data frame ! (d + 2 * ?w + padding + r * ?s + 4 * (x div 2) + 2 * (x mod 2)))
                               (data frame ! (d + 2 * ?w + padding + r * ?s + 4 * (x div 2) + 1))
                               (data frame ! (d + 2 * ?w + padding + r * ?s + 4 * (x div 2) + 3)) ! c)"
    using n1 by auto
  have res: "yuyv_rows frame padding lb d 0 jpeg =
          Some (jpeg\<lparr>next_scanline := height frame, written := written jpeg @ (lb' # rows)\<rparr>)"
    using lt line run by (subst yuyv_rows.simps) (simp add: jpeg_write_scanlines_def)
  have all: "length ((lb' # rows) ! r) = 3 * ?w
       \<and> (\<forall>x<?w. \<forall>c<3. (lb' # rows) ! r ! (3 * x + c) =
              yuv_chan (data frame ! (d + r * ?s + 4 * (x div 2) + 2 * (x mod 2)))
                       (data frame ! (d + r * ?s + 4 * (x div 2) + 1))
                       (data frame ! (d + r * ?s + 4 * (x div 2) + 3)) ! c)"
    if "r < Suc n" for r
  proof (cases r)
    case 0
    then show ?thesis using len px by simp
  next
    case (Suc r')
    then have "r' < n" using that by simp
    from rpx[OF this] show ?thesis using Suc by (simp add: algebra_simps)
  qed
  show ?case
    using res rlen all Suc.hyps(2)[symmetric] by (intro exI[of _ "lb' # rows"]) simp
qed

lemma yuyv_feeder_spec:
  assumes "even (width frame)"
    and "height frame * (2 * width frame + padding) \<le> length (data frame)"
  shows "\<exists>rows. jpeg_write_scanlines_yuyv jpeg_start_compress frame padding =
             Some \<lparr>next_scanline = height frame, written = rows\<rparr>
           \<and> length rows = height frame
           \<and> (\<forall>r<height frame. length (rows ! r) = 3 * width frame
                \<and> (\<forall>x<width frame. \<forall>c<3. rows ! r ! (3 * x + c) =
                      yuv_chan (data frame ! (r * (2 * width frame + padding) + 4 * (x div 2) + 2 * (x mod 2)))
                               (data frame ! (r * (2 * width frame + padding) + 4 * (x div 2) + 1))
                               (data frame ! (r * (2 * width frame + padding) + 4 * (x div 2) + 3)) ! c))"
proof -
  let ?j = "\<lparr>next_scanline = 0, written = []\<rparr>"
  have "\<exists>rows. yuyv_rows frame padding (replicate (width frame * 3) 0) 0 0 ?j =
             Some (?j\<lparr>next_scanline := height frame, written := written ?j @ rows\<rparr>)
           \<and> length rows = height frame - next_scanline ?j
           \<and> (\<forall>r<length rows. length (rows ! r) = 3 * width frame
                \<and> (\<forall>x<width frame. \<forall>c<3. rows ! r ! (3 * x + c) =
                      yuv_chan (data frame ! (0 + r * (2 * width frame + padding) + 4 * (x div 2) + 2 * (x mod 2)))
                               (data frame ! (0 + r * (2 * width frame + padding) + 4 * (x div 2) + 1))
                               (data frame ! (0 + r * (2 * width frame + padding) + 4 * (x div 2) + 3)) ! c))"
    using assms by (intro yuyv_rows_spec) simp_all
  then obtain rows where
    "yuyv_rows frame padding (replicate (width frame * 3) 0) 0 0 ?j =
        Some \<lparr>next_scanline = height frame, written = rows\<rparr>"
    and "length rows = height frame"
    and "\<forall>r<length rows. length (rows ! r) = 3 * width frame
                \<and> (\<forall>x<width frame. \<forall>c<3. rows ! r ! (3 * x + c) =
                      yuv_chan (data frame ! (r * (2 * width frame + padding) + 4 * (x div 2) + 2 * (x mod 2)))
                               (data frame ! (r * (2 * width frame + padding) + 4 * (x div 2) + 1))
                               (data frame ! (r * (2 * width frame + padding) + 4 * (x div 2) + 3)) ! c)"
    by auto
  then show ?thesis
    unfolding jpeg_write_scanlines_yuyv_def jpeg_start_compress_def by metis
qed

subsection \<open>The UYVY feeder\<close>

lemma uyvy_pixel_Some:
  assumes "d + 3 < length mem" and "ptr + 2 < length lb" and "z \<le> 1"
  shows "uyvy_pixel mem lb ptr d z =
           Some (put3 lb ptr (yuv_chan (mem ! (d + 1 + 2 * z)) (mem ! d) (mem ! (d + 2))))"
proof -
  from assms(3) consider "z = 0" | "z = 1" by linarith
  then show ?thesis
    using assms(1,2)
    by cases (simp_all add: uyvy_pixel_def rd_def wr_def yuv_chan_def put3_def Let_def numeral_3_eq_3)
qed

lemma uyvy_line_spec:
  assumes "x \<le> w" and "z \<le> 1"
    and "d + 4 * ((w - x + z + 1) div 2) \<le> length mem"
    and "ptr + 3 * (w - x) \<le> length lb"
  shows "\<exists>lb'. uyvy_line mem w lb ptr d z x =
               Some (lb', d + 4 * ((w - x + z) div 2), (w - x + z) mod 2)
           \<and> length lb' = length lb
           \<and> (\<forall>k<ptr. lb' ! k = lb ! k)
           \<and> (\<forall>m<w - x. \<forall>c<3. lb' ! (ptr + 3 * m + c) =
                  yuv_chan (mem ! (d + 4 * ((m + z) div 2) + 1 + 2 * ((m + z) mod 2)))
                           (mem ! (d + 4 * ((m + z) div 2)))
                           (mem ! (d + 4 * ((m + z) div 2) + 2)) ! c)"
  using assms
proof (induction "w - x" arbitrary: x lb ptr d z)
  case 0
  then have "z = 0 \<or> z = 1" by linarith
  with 0 show ?case by (subst uyvy_line.simps) auto
next
  case (Suc n)
  then have xw: "x < w" and n: "n = w - (x + 1)" by linarith+
  from Suc.prems(2) have zc: "z = 0 \<or> z = 1" by linarith
  let ?lb1 = "put3 lb ptr (yuv_chan (mem ! (d + 1 + 2 * z)) (mem ! d) (mem ! (d + 2)))"
  let ?d1 = "if z \<noteq> 0 then d + 4 else d" and ?z1 = "if z \<noteq> 0 then 0 else z + 1"
  have b: "ptr + 2 < length lb" using Suc.prems xw by linarith
  have wx: "w - x = Suc n" using Suc.hyps(2) by simp
  have rdb: "d + 3 < length mem"
    using Suc.prems(3) zc unfolding wx by (auto simp: algebra_simps) 
  have px: "uyvy_pixel mem lb ptr d z = Some ?lb1"
    using rdb b Suc.prems(2) by (rule uyvy_pixel_Some)
  have z1: "?z1 \<le> 1" using zc by auto
  have bnd: "?d1 + 4 * ((w - (x + 1) + ?z1 + 1) div 2) \<le> length mem"
    using Suc.prems(3) zc unfolding wx n[symmetric] by auto
  have "\<exists>lb'. uyvy_line mem w ?lb1 (ptr + 3) ?d1 ?z1 (x + 1) =
               Some (lb', ?d1 + 4 * ((w - (x + 1) + ?z1) div 2), (w - (x + 1) + ?z1) mod 2)
           \<and> length lb' = length ?lb1
           \<and> (\<forall>k<ptr + 3. lb' ! k = ?lb1 ! k)
           \<and> (\<forall>m<w - (x + 1). \<forall>c<3. lb' ! (ptr + 3 + 3 * m + c) =
                  yuv_chan (mem ! (?d1 + 4 * ((m + ?z1) div 2) + 1 + 2 * ((m + ?z1) mod 2)))
                           (mem ! (?d1 + 4 * ((m + ?z1) div 2)))
                           (mem ! (?d1 + 4 * ((m + ?z1) div 2) + 2)) ! c)"
  proof (rule Suc.hyps(1))
    show "n = w - (x + 1)" by (rule n)
    show "x + 1 \<le> w" using xw by simp
    show "?z1 \<le> 1" by (rule z1)
    show "?d1 + 4 * ((w - (x + 1) + ?z1 + 1) div 2) \<le> length mem" by (rule bnd)
    show "ptr + 3 + 3 * (w - (x + 1)) \<le> length ?lb1"
      using Suc.prems(4) xw by (simp add: length_put3)
  qed
  then obtain lb' where
    run: "uyvy_line mem w ?lb1 (ptr + 3) ?d1 ?z1 (x + 1) =
               Some (lb', ?d1 + 4 * ((n + ?z1) div 2), (n + ?z1) mod 2)"
    and len: "length lb' = length lb"
    and keep: "\<And>k. k < ptr + 3 \<Longrightarrow> lb' ! k = ?lb1 ! k"
    and rest: "\<And>m c. m < n \<Longrightarrow> c < 3 \<Longrightarrow> lb' ! (ptr + 3 + 3 * m + c) =
                  yuv_chan (mem ! (?d1 + 4 * ((m + ?z1) div 2) + 1 + 2 * ((m + ?z1) mod 2)))
                           (mem ! (?d1 + 4 * ((m + ?z1) div 2)))
                           (mem ! (?d1 + 4 * ((m + ?z1) div 2) + 2)) ! c"
    unfolding n[symmetric] by (auto simp: length_put3)
  have fd: "?d1 + 4 * ((n + ?z1) div 2) = d + 4 * ((Suc n + z) div 2)"
    using zc by auto
  have fz: "(n + ?z1) mod 2 = (Suc n + z) mod 2"
    using zc by auto
  have res: "uyvy_line mem w lb ptr d z x =
        Some (lb', d + 4 * ((w - x + z) div 2), (w - x + z) mod 2)"
    unfolding wx fd[symmetric] fz[symmetric]
    using xw px run by (subst uyvy_line.simps) auto
  have old: "\<forall>k<ptr. lb' ! k = lb ! k"
    using keep by (simp add: put3_nth_out)
  have new: "lb' ! (ptr + 3 * m + c) =
        yuv_chan (mem ! (d + 4 * ((m + z) div 2) + 1 + 2 * ((m + z) mod 2)))
                 (mem ! (d + 4 * ((m + z) div 2)))
                 (mem ! (d + 4 * ((m + z) div 2) + 2)) ! c"
    if "m < w - x" and "c < 3" for m c
  proof (cases m)
    case 0
    have "lb' ! (ptr + c) = ?lb1 ! (ptr + c)" using keep that by simp
    also have "\<dots> = yuv_chan (mem ! (d + 1 + 2 * z)) (mem ! d) (mem ! (d + 2)) ! c"
      using b that(2) by (rule put3_nth_in)
    finally show ?thesis using 0 zc by auto
  next
    case (Suc m')
    then have m': "m' < n" using that wx by linarith
    have i1: "?d1 + 4 * ((m' + ?z1) div 2) = d + 4 * ((Suc m' + z) div 2)"
      using zc by auto
    have i2: "(m' + ?z1) mod 2 = (Suc m' + z) mod 2"
      using zc by auto
    have "ptr + 3 * m + c = ptr + 3 + 3 * m' + c" using Suc by simp
    then show ?thesis
      using rest[OF m' that(2)] unfolding i1 i2 Suc by (simp add: add.assoc)
  qed
  show ?case using res len old new by blast
qed


lemma uyvy_line_even:
  assumes "even w" and "d + 2 * w \<le> length mem" and "length lb = 3 * w"
  shows "\<exists>lb'. uyvy_line mem w lb 0 d 0 0 = Some (lb', d + 2 * w, 0)
           \<and> length lb' = 3 * w
           \<and> (\<forall>m<w. \<forall>c<3. lb' ! (3 * m + c) =
                  yuv_chan (mem ! (d + 4 * (m div 2) + 1 + 2 * (m mod 2)))
                           (mem ! (d + 4 * (m div 2)))
                           (mem ! (d + 4 * (m div 2) + 2)) ! c)"
proof -
  from assms(1) obtain k where k: "w = 2 * k" by (auto elim: evenE)
  have "\<exists>lb'. uyvy_line mem w lb 0 d 0 0 =
               Some (lb', d + 4 * ((w - 0 + 0) div 2), (w - 0 + 0) mod 2)
           \<and> length lb' = length lb
           \<and> (\<forall>k<0. lb' ! k = lb ! k)
           \<and> (\<forall>m<w - 0. \<forall>c<3. lb' ! (0 + 3 * m + c) =
                  yuv_chan (mem ! (d + 4 * ((m + 0) div 2) + 1 + 2 * ((m + 0) mod 2)))
                           (mem ! (d + 4 * ((m + 0) div 2)))
                           (mem ! (d + 4 * ((m + 0) div 2) + 2)) ! c)"
    using assms(2,3) k by (intro uyvy_line_spec) simp_all
  then show ?thesis using assms(3) k by simp
qed

lemma uyvy_rows_spec:
  assumes "even (width frame)"
    and "next_scanline jpeg \<le> height frame"
    and "length lb = 3 * width frame"
    and "d + (height frame - next_scanline jpeg) * (2 * width frame + padding) \<le> length (data frame)"
  shows "\<exists>rows. uyvy_rows frame padding lb d 0 jpeg =
             Some (jpeg\<lparr>next_scanline := height frame, written := written jpeg @ rows\<rparr>)
           \<and> length rows = height frame - next_scanline jpeg
           \<and> (\<forall>r<length rows. length (rows ! r) = 3 * width frame
                \<and> (\<forall>x<width frame. \<forall>c<3. rows ! r ! (3 * x + c) =
                      yuv_chan (data frame ! (d + r * (2 * width frame + padding) + 4 * (x div 2) + 1 + 2 * (x mod 2)))
                               (data frame ! (d + r * (2 * width frame + padding) + 4 * (x div 2)))
                               (data frame ! (d + r * (2 * width frame + padding) + 4 * (x div 2) + 2)) ! c))"
  using assms(2-)
proof (induction "height frame - next_scanline jpeg" arbitrary: jpeg lb d)
  case 0
  then have "uyvy_rows frame padding lb d 0 jpeg = Some jpeg"
    by (subst uyvy_rows.simps) simp
  with 0 show ?case by simp
next
  case (Suc n)
  let ?w = "width frame" and ?s = "2 * width frame + padding"
  from Suc have lt: "next_scanline jpeg < height frame" by linarith
  have sz: "d + ?s + n * ?s \<le> length (data frame)"
    using Suc.prems(3) Suc.hyps(2)[symmetric] by (simp add: algebra_simps)
  have "d + 2 * ?w \<le> length (data frame)" using sz by simp
  from uyvy_line_even[OF assms(1) this Suc.prems(2)] obtain lb' where
    line: "uyvy_line (data frame) ?w lb 0 d 0 0 = Some (lb', d + 2 * ?w, 0)"
    and len: "length lb' = 3 * ?w"
    and px: "\<And>m c. m < ?w \<Longrightarrow> c < 3 \<Longrightarrow> lb' ! (3 * m + c) =
                  yuv_chan (data frame ! (d + 4 * (m div 2) + 1 + 2 * (m mod 2)))
                           (data frame ! (d + 4 * (m div 2)))
                           (data frame ! (d + 4 * (m div 2) + 2)) ! c"
    by blast
  let ?jpeg1 = "jpeg_write_scanlines jpeg lb'"
  have ns1: "next_scanline ?jpeg1 = next_scanline jpeg + 1"
    by (simp add: jpeg_write_scanlines_def)
  have n1: "height frame - next_scanline ?jpeg1 = n"
    using Suc.hyps(2) ns1 by linarith
  have "\<exists>rows. uyvy_rows frame padding lb' (d + 2 * ?w + padding) 0 ?jpeg1 =
             Some (?jpeg1\<lparr>next_scanline := height frame, written := written ?jpeg1 @ rows\<rparr>)
           \<and> length rows = height frame - next_scanline ?jpeg1
           \<and> (\<forall>r<length rows. length (rows ! r) = 3 * width frame
                \<and> (\<forall>x<width frame. \<forall>c<3. rows ! r ! (3 * x + c) =
                      yuv_chan (data frame ! (d + 2 * ?w + padding + r * ?s + 4 * (x div 2) + 1 + 2 * (x mod 2)))
                               (data frame ! (d + 2 * ?w + padding + r * ?s + 4 * (x div 2)))
                               (data frame ! (d + 2 * ?w + padding + r * ?s + 4 * (x div 2) + 2)) ! c))"
  proof (intro Suc.hyps(1))
    show "n = height frame - next_scanline ?jpeg1" by (rule n1[symmetric])
    show "next_scanline ?jpeg1 \<le> height frame" using lt ns1 by simp
    show "length lb' = 3 * ?w" by (rule len)
    show "d + 2 * ?w + padding + (height frame - next_scanline ?jpeg1) * ?s \<le> length (data frame)"
      unfolding n1 using sz by (simp add: algebra_simps)
  qed
  then obtain rows where
    run: "uyvy_rows frame padding lb' (d + 2 * ?w + padding) 0 ?jpeg1 =
             Some (?jpeg1\<lparr>next_scanline := height frame, written := written ?jpeg1 @ rows\<rparr>)"
    and rlen: "length rows = n"
    and rpx: "\<And>r. r < n \<Longrightarrow> length (rows ! r) = 3 * ?w
                \<and> (\<forall>x<?w. \<forall>c<3. rows ! r ! (3 * x + c) =
                      yuv_chan (data frame ! (d + 2 * ?w + padding + r * ?s + 4 * (x div 2) + 1 + 2 * (x mod 2)))
                               (data frame ! (d + 2 * ?w + padding + r * ?s + 4 * (x div 2)))
                               (data frame ! (d + 2 * ?w + padding + r * ?s + 4 * (x div 2) + 2)) ! c)"
    using n1 by auto
  have res: "uyvy_rows frame padding lb d 0 jpeg =
          Some (jpeg\<lparr>next_scanline := height frame, written := written jpeg @ (lb' # rows)\<rparr>)"
    using lt line run by (subst uyvy_rows.simps) (simp add: jpeg_write_scanlines_def)
  have all: "length ((lb' # rows) ! r) = 3 * ?w
       \<and> (\<forall>x<?w. \<forall>c<3. (lb' # rows) ! r ! (3 * x + c) =
              yuv_chan (data frame ! (d + r * ?s + 4 * (x div 2) + 1 + 2 * (x mod 2)))
                       (data frame ! (d + r * ?s + 4 * (x div 2)))
                       (data frame ! (d + r * ?s + 4 * (x div 2) + 2)) ! c)"
    if "r < Suc n" for r
  proof (cases r)
    case 0
    then show ?thesis using len px by simp
  next
    case (Suc r')
    then have "r' < n" using that by simp
    from rpx[OF this] show ?thesis using Suc by (simp add: algebra_simps)
  qed
  show ?case
    using res rlen all Suc.hyps(2)[symmetric] by (intro exI[of _ "lb' # rows"]) simp
qed

lemma uyvy_feeder_spec:
  assumes "even (width frame)"
    and "height frame * (2 * width frame + padding) \<le> length (data frame)"
  shows "\<exists>rows. jpeg_write_scanlines_uyvy jpeg_start_compress frame padding =
             Some \<lparr>next_scanline = height frame, written = rows\<rparr>
           \<and> length rows = height frame
           \<and> (\<forall>r<height frame. length (rows ! r) = 3 * width frame
                \<and> (\<forall>x<width frame. \<forall>c<3. rows ! r ! (3 * x + c) =
                      yuv_chan (data frame ! (r * (2 * width frame + padding) + 4 * (x div 2) + 1 + 2 * (x mod 2)))
                               (data frame ! (r * (2 * width frame + padding) + 4 * (x div 2)))
                               (data frame ! (r * (2 * width frame + padding) + 4 * (x div 2) + 2)) ! c))"
proof -
  let ?j = "\<lparr>next_scanline = 0, written = []\<rparr>"
  have "\<exists>rows. uyvy_rows frame padding (replicate (width frame * 3) 0) 0 0 ?j =
             Some (?j\<lparr>next_scanline := height frame, written := written ?j @ rows\<rparr>)
           \<and> length rows = height frame - next_scanline ?j
           \<and> (\<forall>r<length rows. length (rows ! r) = 3 * width frame
                \<and> (\<forall>x<width frame. \<forall>c<3. rows ! r ! (3 * x + c) =
                      yuv_chan (data frame ! (0 + r * (2 * width frame + padding) + 4 * (x div 2) + 1 + 2 * (x mod 2)))
                               (data frame ! (0 + r * (2 * width frame + padding) + 4 * (x div 2)))
                               (data frame ! (0 + r * (2 * width frame + padding) + 4 * (x div 2) + 2)) ! c))"
    using assms by (intro uyvy_rows_spec) simp_all
  then obtain rows where
    "uyvy_rows frame padding (replicate (width frame * 3) 0) 0 0 ?j =
        Some \<lparr>next_scanline = height frame, written = rows\<rparr>"
    and "length rows = height frame"
    and "\<forall>r<length rows. length (rows ! r) = 3 * width frame
                \<and> (\<forall>x<width frame. \<forall>c<3. rows ! r ! (3 * x + c) =
                      yuv_chan (data frame ! (r * (2 * width frame + padding) + 4 * (x div 2) + 1 + 2 * (x mod 2)))
                               (data frame ! (r * (2 * width frame + padding) + 4 * (x div 2)))
                               (data frame ! (r * (2 * width frame + padding) + 4 * (x div 2) + 2)) ! c)"
    by auto
  then show ?thesis
    unfolding jpeg_write_scanlines_uyvy_def jpeg_start_compress_def by metis
qed

subsection \<open>The colour transform of the packed 4:2:2 feeders\<close>

lemma NORM_COMPONENT_clamp: "NORM_COMPONENT x = clamp255 x"
  by (simp add: NORM_COMPONENT_def clamp255_def)

lemma uint_clamp255: "uint (word_of_int (clamp255 x) :: u8) = clamp255 x"
proof -
  have "0 \<le> clamp255 x" and "clamp255 x < 256" by (simp_all add: clamp255_def)
  then show ?thesis by (simp add: uint_word_of_int)
qed

lemma yuv_chan_formula:
  "uint (yuv_chan yb ub vb ! 0) = clamp255 (drop_bit 8 (256 * uint yb + 359 * (uint vb - 128)))"
  "uint (yuv_chan yb ub vb ! 1) =
     clamp255 (drop_bit 8 (256 * uint yb - 88 * (uint ub - 128) - 183 * (uint vb - 128)))"
  "uint (yuv_chan yb ub vb ! 2) = clamp255 (drop_bit 8 (256 * uint yb + 454 * (uint ub - 128)))"
proof -
  have pb: "push_bit 8 (uint yb) = 256 * uint yb" by (simp add: push_bit_eq_mult)
  show "uint (yuv_chan yb ub vb ! 0) = clamp255 (drop_bit 8 (256 * uint yb + 359 * (uint vb - 128)))"
    by (simp only: yuv_chan_def nth_Cons_0 NORM_COMPONENT_clamp uint_clamp255 YUV_R_def pb)
  show "uint (yuv_chan yb ub vb ! 1) =
     clamp255 (drop_bit 8 (256 * uint yb - 88 * (uint ub - 128) - 183 * (uint vb - 128)))"
    by (simp add: yuv_chan_def NORM_COMPONENT_clamp uint_clamp255 YUV_G_def pb)
  show "uint (yuv_chan yb ub vb ! 2) = clamp255 (drop_bit 8 (256 * uint yb + 454 * (uint ub - 128)))"
    by (simp add: yuv_chan_def NORM_COMPONENT_clamp uint_clamp255 YUV_B_def pb)
qed

lemma yuv_chan_neutral: "yuv_chan yb 128 128 = [yb, yb, yb]"
proof -
  have "0 \<le> uint yb" and "uint yb < 256" using uint_bounded[of yb] by simp_all
  then have "NORM_COMPONENT (uint yb) = uint yb" by (simp add: NORM_COMPONENT_def)
  moreover have "drop_bit 8 (push_bit 8 (uint yb)) = uint yb"
    by (simp add: drop_bit_eq_div push_bit_eq_mult)
  ultimately show ?thesis
    by (simp add: yuv_chan_def YUV_R_def YUV_G_def YUV_B_def)
qed

lemma yuv_px_formula:
  assumes "\<And>c. c < 3 \<Longrightarrow> p ! (k + c) = yuv_chan yb ub vb ! c"
  shows "uint (p ! k) = clamp255 (drop_bit 8 (256 * uint yb + 359 * (uint vb - 128)))
       \<and> uint (p ! (k + 1)) =
           clamp255 (drop_bit 8 (256 * uint yb - 88 * (uint ub - 128) - 183 * (uint vb - 128)))
       \<and> uint (p ! (k + 2)) = clamp255 (drop_bit 8 (256 * uint yb + 454 * (uint ub - 128)))"
proof -
  have "p ! k = yuv_chan yb ub vb ! 0" using assms[of 0] by simp
  moreover have "p ! (k + 1) = yuv_chan yb ub vb ! 1" using assms[of 1] by simp
  moreover have "p ! (k + 2) = yuv_chan yb ub vb ! 2" using assms[of 2] by simp
  ultimately show ?thesis by (simp only: yuv_chan_formula)
qed

lemma yuv_px_neutral:
  assumes "\<And>c. c < 3 \<Longrightarrow> p ! (k + c) = yuv_chan yb 128 128 ! c"
  shows "p ! k = yb \<and> p ! (k + 1) = yb \<and> p ! (k + 2) = yb"
proof -
  have "p ! k = yuv_chan yb 128 128 ! 0" using assms[of 0] by simp
  moreover have "p ! (k + 1) = yuv_chan yb 128 128 ! 1" using assms[of 1] by simp
  moreover have "p ! (k + 2) = yuv_chan yb 128 128 ! 2" using assms[of 2] by simp
  ultimately show ?thesis by (simp add: yuv_chan_neutral)
qed

subsection \<open>The BGR24 and RGB24 feeders\<close>

lemma bgr24_pixel_Some:
  assumes "d + x + 2 < length mem" and "ptr + 2 < length lb"
  shows "bgr24_pixel mem lb ptr d x =
           Some (put3 lb ptr [mem ! (d + x + 2), mem ! (d + x + 1), mem ! (d + x)])"
  using assms by (simp add: bgr24_pixel_def rd_def wr_def put3_def add.assoc)

lemma bgr24_line_spec:
  assumes "i \<le> w" and "d + 3 * w \<le> length mem" and "ptr + 3 * (w - i) \<le> length lb"
  shows "\<exists>lb'. bgr24_line mem w lb ptr d (3 * i) = Some lb'
           \<and> length lb' = length lb
           \<and> (\<forall>k<ptr. lb' ! k = lb ! k)
           \<and> (\<forall>m<w - i. \<forall>c<3. lb' ! (ptr + 3 * m + c) = mem ! (d + 3 * (i + m) + (2 - c)))"
  using assms
proof (induction "w - i" arbitrary: i lb ptr)
  case 0
  then show ?case by (subst bgr24_line.simps) simp
next
  case (Suc n)
  then have iw: "i < w" and n: "n = w - (i + 1)" by linarith+
  let ?ch = "[mem ! (d + 3 * i + 2), mem ! (d + 3 * i + 1), mem ! (d + 3 * i)]"
  let ?lb1 = "put3 lb ptr ?ch"
  have b: "ptr + 2 < length lb" using Suc.prems iw by linarith
  have px: "bgr24_pixel mem lb ptr d (3 * i) = Some ?lb1"
    using Suc.prems iw b by (intro bgr24_pixel_Some) linarith+
  have "\<exists>lb'. bgr24_line mem w ?lb1 (ptr + 3) d (3 * (i + 1)) = Some lb'
           \<and> length lb' = length ?lb1
           \<and> (\<forall>k<ptr + 3. lb' ! k = ?lb1 ! k)
           \<and> (\<forall>m<w - (i + 1). \<forall>c<3. lb' ! (ptr + 3 + 3 * m + c) =
                  mem ! (d + 3 * (i + 1 + m) + (2 - c)))"
    using Suc.prems iw by (intro Suc.hyps(1) n) (simp_all add: length_put3)
  then obtain lb' where
    run: "bgr24_line mem w ?lb1 (ptr + 3) d (3 * i + 3) = Some lb'"
    and len: "length lb' = length lb"
    and keep: "\<And>k. k < ptr + 3 \<Longrightarrow> lb' ! k = ?lb1 ! k"
    and rest: "\<And>m c. m < w - (i + 1) \<Longrightarrow> c < 3 \<Longrightarrow> lb' ! (ptr + 3 + 3 * m + c) =
                  mem ! (d + 3 * (i + 1 + m) + (2 - c))"
    by (auto simp: length_put3 algebra_simps)
  have res: "bgr24_line mem w lb ptr d (3 * i) = Some lb'"
    using iw px run by (subst bgr24_line.simps) simp
  have old: "\<forall>k<ptr. lb' ! k = lb ! k"
    using keep by (simp add: put3_nth_out)
  have new: "lb' ! (ptr + 3 * m + c) = mem ! (d + 3 * (i + m) + (2 - c))"
    if "m < w - i" and "c < 3" for m c
  proof (cases m)
    case 0
    have "lb' ! (ptr + c) = ?lb1 ! (ptr + c)" using keep that by simp
    also have "\<dots> = ?ch ! c"
      using b that(2) by (rule put3_nth_in)
    also have "\<dots> = mem ! (d + 3 * i + (2 - c))"
    proof -
      from that(2) consider "c = 0" | "c = 1" | "c = 2" by linarith
      then show ?thesis by cases simp_all
    qed
    finally show ?thesis using 0 by simp
  next
    case (Suc m')
    then have "m' < w - (i + 1)" using that by linarith
    from rest[OF this that(2)] show ?thesis using Suc by (simp add: algebra_simps)
  qed
  show ?case using res len old new by blast
qed


lemma bgr24_rows_spec:
  assumes "next_scanline jpeg \<le> height frame"
    and "length lb = 3 * width frame"
    and "d + (height frame - next_scanline jpeg) * (3 * width frame + padding) \<le> length (data frame)"
  shows "\<exists>rows. bgr24_rows frame padding lb d jpeg =
             Some (jpeg\<lparr>next_scanline := height frame, written := written jpeg @ rows\<rparr>)
           \<and> length rows = height frame - next_scanline jpeg
           \<and> (\<forall>r<length rows. length (rows ! r) = 3 * width frame
                \<and> (\<forall>x<width frame. \<forall>c<3. rows ! r ! (3 * x + c) =
                      data frame ! (d + r * (3 * width frame + padding) + 3 * x + (2 - c))))"
  using assms
proof (induction "height frame - next_scanline jpeg" arbitrary: jpeg lb d)
  case 0
  then have "bgr24_rows frame padding lb d jpeg = Some jpeg"
    by (subst bgr24_rows.simps) simp
  with 0 show ?case by simp
next
  case (Suc n)
  let ?w = "width frame" and ?s = "3 * width frame + padding"
  from Suc have lt: "next_scanline jpeg < height frame" by linarith
  have sz: "d + ?s + n * ?s \<le> length (data frame)"
    using Suc.prems(3) Suc.hyps(2)[symmetric] by (simp add: algebra_simps)
  have "\<exists>lb'. bgr24_line (data frame) ?w lb 0 d (3 * 0) = Some lb'
           \<and> length lb' = length lb
           \<and> (\<forall>k<0. lb' ! k = lb ! k)
           \<and> (\<forall>m<?w - 0. \<forall>c<3. lb' ! (0 + 3 * m + c) = data frame ! (d + 3 * (0 + m) + (2 - c)))"
    using Suc.prems(2) sz by (intro bgr24_line_spec) simp_all
  then obtain lb' where
    line: "bgr24_line (data frame) ?w lb 0 d 0 = Some lb'"
    and len: "length lb' = 3 * ?w"
    and px: "\<And>m c. m < ?w \<Longrightarrow> c < 3 \<Longrightarrow> lb' ! (3 * m + c) = data frame ! (d + 3 * m + (2 - c))"
    using Suc.prems(2) by auto
  let ?jpeg1 = "jpeg_write_scanlines jpeg lb'"
  have ns1: "next_scanline ?jpeg1 = next_scanline jpeg + 1"
    by (simp add: jpeg_write_scanlines_def)
  have n1: "height frame - next_scanline ?jpeg1 = n"
    using Suc.hyps(2) ns1 by linarith
  have "\<exists>rows. bgr24_rows frame padding lb' (d + ?s) ?jpeg1 =
             Some (?jpeg1\<lparr>next_scanline := height frame, written := written ?jpeg1 @ rows\<rparr>)
           \<and> length rows = height frame - next_scanline ?jpeg1
           \<and> (\<forall>r<length rows. length (rows ! r) = 3 * width frame
                \<and> (\<forall>x<width frame. \<forall>c<3. rows ! r ! (3 * x + c) =
                      data frame ! (d + ?s + r * ?s + 3 * x + (2 - c))))"
  proof (intro Suc.hyps(1))
    show "n = height frame - next_scanline ?jpeg1" by (rule n1[symmetric])
    show "next_scanline ?jpeg1 \<le> height frame" using lt ns1 by simp
    show "length lb' = 3 * ?w" by (rule len)
    show "d + ?s + (height frame - next_scanline ?jpeg1) * ?s \<le> length (data frame)"
      unfolding n1 using sz by simp
  qed
  then obtain rows where
    run: "bgr24_rows frame padding lb' (d + ?s) ?jpeg1 =
             Some (?jpeg1\<lparr>next_scanline := height frame, written := written ?jpeg1 @ rows\<rparr>)"
    and rlen: "length rows = n"
    and rpx: "\<And>r. r < n \<Longrightarrow> length (rows ! r) = 3 * ?w
                \<and> (\<forall>x<?w. \<forall>c<3. rows ! r ! (3 * x + c) =
                      data frame ! (d + ?s + r * ?s + 3 * x + (2 - c)))"
    using n1 by auto
  have res: "bgr24_rows frame padding lb d jpeg =
          Some (jpeg\<lparr>next_scanline := height frame, written := written jpeg @ (lb' # rows)\<rparr>)"
    using lt line run
    by (subst bgr24_rows.simps) (simp add: jpeg_write_scanlines_def mult.commute)
  have all: "length ((lb' # rows) ! r) = 3 * ?w
       \<and> (\<forall>x<?w. \<forall>c<3. (lb' # rows) ! r ! (3 * x + c) =
              data frame ! (d + r * ?s + 3 * x + (2 - c)))"
    if "r < Suc n" for r
  proof (cases r)
    case 0
    then show ?thesis using len px by simp
  next
    case (Suc r')
    then have "r' < n" using that by simp
    from rpx[OF this] show ?thesis using Suc by (simp add: algebra_simps)
  qed
  show ?case
    using res rlen all Suc.hyps(2)[symmetric] by (intro exI[of _ "lb' # rows"]) simp
qed

lemma bgr24_feeder_spec:
  assumes "height frame * (3 * width frame + padding) \<le> length (data frame)"
  shows "\<exists>rows. jpeg_write_scanlines_bgr24 jpeg_start_compress frame padding =
             Some \<lparr>next_scanline = height frame, written = rows\<rparr>
           \<and> length rows = height frame
           \<and> (\<forall>r<height frame. length (rows ! r) = 3 * width frame
                \<and> (\<forall>x<width frame. \<forall>c<3. rows ! r ! (3 * x + c) =
                      data frame ! (r * (3 * width frame + padding) + 3 * x + (2 - c))))"
proof -
  let ?j = "\<lparr>next_scanline = 0, written = []\<rparr>"
  have "\<exists>rows. bgr24_rows frame padding (replicate (width frame * 3) 0) 0 ?j =
             Some (?j\<lparr>next_scanline := height frame, written := written ?j @ rows\<rparr>)
           \<and> length rows = height frame - next_scanline ?j
           \<and> (\<forall>r<length rows. length (rows ! r) = 3 * width frame
                \<and> (\<forall>x<width frame. \<forall>c<3. rows ! r ! (3 * x + c) =
                      data frame ! (0 + r * (3 * width frame + padding) + 3 * x + (2 - c))))"
    using assms by (intro bgr24_rows_spec) simp_all
  then obtain rows where
    "bgr24_rows frame padding (replicate (width frame * 3) 0) 0 ?j =
        Some \<lparr>next_scanline = height frame, written = rows\<rparr>"
    and "length rows = height frame"
    and "\<forall>r<length rows. length (rows ! r) = 3 * width frame
                \<and> (\<forall>x<width frame. \<forall>c<3. rows ! r ! (3 * x + c) =
                      data frame ! (r * (3 * width frame + padding) + 3 * x + (2 - c)))"
    by auto
  then show ?thesis
    unfolding jpeg_write_scanlines_bgr24_def jpeg_start_compress_def by metis
qed

lemma rgb24_rows_spec:
  assumes "next_scanline jpeg \<le> height frame"
    and "d + (height frame - next_scanline jpeg) * (3 * width frame + padding) \<le> length (data frame)"
  shows "\<exists>rows. rgb24_rows frame padding d jpeg =
             Some (jpeg\<lparr>next_scanline := height frame, written := written jpeg @ rows\<rparr>)
           \<and> length rows = height frame - next_scanline jpeg
           \<and> (\<forall>r<length rows. length (rows ! r) = 3 * width frame
                \<and> (\<forall>k<3 * width frame. rows ! r ! k =
                      data frame ! (d + r * (3 * width frame + padding) + k)))"
  using assms
proof (induction "height frame - next_scanline jpeg" arbitrary: jpeg d)
  case 0
  then have "rgb24_rows frame padding d jpeg = Some jpeg"
    by (subst rgb24_rows.simps) simp
  with 0 show ?case by simp
next
  case (Suc n)
  let ?w = "width frame" and ?s = "3 * width frame + padding"
  from Suc have lt: "next_scanline jpeg < height frame" by linarith
  have sz: "d + ?s + n * ?s \<le> length (data frame)"
    using Suc.prems(2) Suc.hyps(2)[symmetric] by (simp add: algebra_simps)
  let ?row = "take (?w * 3) (drop d (data frame))"
  have line: "rd_row (data frame) d (?w * 3) = Some ?row"
    using sz by (simp add: rd_row_def)
  have len: "length ?row = 3 * ?w" using sz by simp
  have px: "?row ! k = data frame ! (d + k)" if "k < 3 * ?w" for k
    using that sz by simp
  let ?jpeg1 = "jpeg_write_scanlines jpeg ?row"
  have ns1: "next_scanline ?jpeg1 = next_scanline jpeg + 1"
    by (simp add: jpeg_write_scanlines_def)
  have n1: "height frame - next_scanline ?jpeg1 = n"
    using Suc.hyps(2) ns1 by linarith
  have "\<exists>rows. rgb24_rows frame padding (d + ?s) ?jpeg1 =
             Some (?jpeg1\<lparr>next_scanline := height frame, written := written ?jpeg1 @ rows\<rparr>)
           \<and> length rows = height frame - next_scanline ?jpeg1
           \<and> (\<forall>r<length rows. length (rows ! r) = 3 * width frame
                \<and> (\<forall>k<3 * width frame. rows ! r ! k = data frame ! (d + ?s + r * ?s + k)))"
  proof (intro Suc.hyps(1))
    show "n = height frame - next_scanline ?jpeg1" by (rule n1[symmetric])
    show "next_scanline ?jpeg1 \<le> height frame" using lt ns1 by simp
    show "d + ?s + (height frame - next_scanline ?jpeg1) * ?s \<le> length (data frame)"
      unfolding n1 using sz by simp
  qed
  then obtain rows where
    run: "rgb24_rows frame padding (d + ?s) ?jpeg1 =
             Some (?jpeg1\<lparr>next_scanline := height frame, written := written ?jpeg1 @ rows\<rparr>)"
    and rlen: "length rows = n"
    and rpx: "\<And>r. r < n \<Longrightarrow> length (rows ! r) = 3 * ?w
                \<and> (\<forall>k<3 * ?w. rows ! r ! k = data frame ! (d + ?s + r * ?s + k))"
    using n1 by auto
  have res: "rgb24_rows frame padding d jpeg =
          Some (jpeg\<lparr>next_scanline := height frame, written := written jpeg @ (?row # rows)\<rparr>)"
    using lt line run
    by (subst rgb24_rows.simps) (simp add: jpeg_write_scanlines_def mult.commute)
  have all: "length ((?row # rows) ! r) = 3 * ?w
       \<and> (\<forall>k<3 * ?w. (?row # rows) ! r ! k = data frame ! (d + r * ?s + k))"
    if "r < Suc n" for r
  proof (cases r)
    case 0
    then show ?thesis using len px by simp
  next
    case (Suc r')
    then have "r' < n" using that by simp
    from rpx[OF this] show ?thesis using Suc by (simp add: algebra_simps)
  qed
  show ?case
    using res rlen all Suc.hyps(2)[symmetric] by (intro exI[of _ "?row # rows"]) simp
qed

lemma rgb24_feeder_spec:
  assumes "height frame * (3 * width frame + padding) \<le> length (data frame)"
  shows "\<exists>rows. jpeg_write_scanlines_rgb24 jpeg_start_compress frame padding =
             Some \<lparr>next_scanline = height frame, written = rows\<rparr>
           \<and> length rows = height frame
           \<and> (\<forall>r<height frame. length (rows ! r) = 3 * width frame
                \<and> (\<forall>k<3 * width frame. rows ! r ! k =
                      data frame ! (r * (3 * width frame + padding) + k)))"
proof -
  let ?j = "\<lparr>next_scanline = 0, written = []\<rparr>"
  have "\<exists>rows. rgb24_rows frame padding 0 ?j =
             Some (?j\<lparr>next_scanline := height frame, written := written ?j @ rows\<rparr>)
           \<and> length rows = height frame - next_scanline ?j
           \<and> (\<forall>r<length rows. length (rows ! r) = 3 * width frame
                \<and> (\<forall>k<3 * width frame. rows ! r ! k =
                      data frame ! (0 + r * (3 * width frame + padding) + k)))"
    using assms by (intro rgb24_rows_spec) simp_all
  then obtain rows where
    "rgb24_rows frame padding 0 ?j = Some \<lparr>next_scanline = height frame, written = rows\<rparr>"
    and "length rows = height frame"
    and "\<forall>r<length rows. length (rows ! r) = 3 * width frame
                \<and> (\<forall>k<3 * width frame. rows ! r ! k =
                      data frame ! (r * (3 * width frame + padding) + k))"
    by auto
  then show ?thesis
    unfolding jpeg_write_scanlines_rgb24_def jpeg_start_compress_def by metis
qed

subsection \<open>The semi-planar converters\<close>

lemma clamp_if: "(if x < 0 then 0 else if x > 255 then 255 else x) = clamp255 x"
  by (simp add: clamp255_def)

lemma nv12_pixel_Some:
  assumes "i * w + j < length inp"
    and "uvo + ((i div 2) * w + 2 * (j div 2)) + 1 < length inp"
    and "3 * (i * w + j) + 2 < length out"
    and "uvo + ((i div 2) * w + 2 * (j div 2)) + 1 \<le> INT_MAX"
    and "3 * (i * w + j) + 2 \<le> INT_MAX"
  shows "nv12_pixel inp out w uvo i j =
           Some (put3 out (3 * (i * w + j))
                   (nv_chan (inp ! (i * w + j))
                            (inp ! (uvo + ((i div 2) * w + 2 * (j div 2))))
                            (inp ! (uvo + ((i div 2) * w + 2 * (j div 2)) + 1))))"
  using assms
  by (simp add: nv12_pixel_def cint_def rd_def wr_def put3_def nv_chan_def Let_def clamp_if
        mult.commute)

lemma nv12_cols_spec:
  assumes "j \<le> w"
    and "\<forall>jj<w. i * w + jj < length inp
              \<and> uvo + ((i div 2) * w + 2 * (jj div 2)) + 1 < length inp
              \<and> uvo + ((i div 2) * w + 2 * (jj div 2)) + 1 \<le> INT_MAX"
    and "3 * (i * w + w) \<le> INT_MAX"
    and "3 * (i * w + w) \<le> length out"
  shows "\<exists>out'. nv12_cols inp out w uvo i j = Some out'
           \<and> length out' = length out
           \<and> (\<forall>k. k < 3 * (i * w + j) \<or> 3 * (i * w + w) \<le> k \<longrightarrow> out' ! k = out ! k)
           \<and> (\<forall>jj c. j \<le> jj \<and> jj < w \<and> c < 3 \<longrightarrow> out' ! (3 * (i * w + jj) + c) =
                  nv_chan (inp ! (i * w + jj))
                          (inp ! (uvo + ((i div 2) * w + 2 * (jj div 2))))
                          (inp ! (uvo + ((i div 2) * w + 2 * (jj div 2)) + 1)) ! c)"
  using assms(1,4)
proof (induction "w - j" arbitrary: j out)
  case 0
  then show ?case by (subst nv12_cols.simps) auto
next
  case (Suc n)
  then have jw: "j < w" and n: "n = w - (j + 1)" by linarith+
  let ?p = "3 * (i * w + j)"
  let ?ch = "\<lambda>jj. nv_chan (inp ! (i * w + jj))
                          (inp ! (uvo + ((i div 2) * w + 2 * (jj div 2))))
                          (inp ! (uvo + ((i div 2) * w + 2 * (jj div 2)) + 1))"
  let ?out1 = "put3 out ?p (?ch j)"
  have b: "?p + 2 < length out" using Suc.prems jw by (simp add: algebra_simps)
  have bi: "?p + 2 \<le> INT_MAX" using assms(3) jw by (simp add: algebra_simps)
  have px: "nv12_pixel inp out w uvo i j = Some ?out1"
    using assms(2) jw b bi by (intro nv12_pixel_Some) auto
  have "\<exists>out'. nv12_cols inp ?out1 w uvo i (j + 1) = Some out'
           \<and> length out' = length ?out1
           \<and> (\<forall>k. k < 3 * (i * w + (j + 1)) \<or> 3 * (i * w + w) \<le> k \<longrightarrow> out' ! k = ?out1 ! k)
           \<and> (\<forall>jj c. j + 1 \<le> jj \<and> jj < w \<and> c < 3 \<longrightarrow> out' ! (3 * (i * w + jj) + c) = ?ch jj ! c)"
    using Suc.prems jw by (intro Suc.hyps(1) n) (simp_all add: length_put3)
  then obtain out' where
    run: "nv12_cols inp ?out1 w uvo i (j + 1) = Some out'"
    and len: "length out' = length out"
    and keep: "\<And>k. k < 3 * (i * w + (j + 1)) \<or> 3 * (i * w + w) \<le> k \<Longrightarrow> out' ! k = ?out1 ! k"
    and rest: "\<And>jj c. j + 1 \<le> jj \<Longrightarrow> jj < w \<Longrightarrow> c < 3 \<Longrightarrow>
                 out' ! (3 * (i * w + jj) + c) = ?ch jj ! c"
    by (auto simp: length_put3)
  have res: "nv12_cols inp out w uvo i j = Some out'"
    using jw px run by (subst nv12_cols.simps) simp
  have old: "out' ! k = out ! k" if "k < ?p \<or> 3 * (i * w + w) \<le> k" for k
  proof -
    have "out' ! k = ?out1 ! k" using that by (intro keep) auto
    also have "\<dots> = out ! k" using that jw by (intro put3_nth_out) auto
    finally show ?thesis .
  qed
  have new: "out' ! (3 * (i * w + jj) + c) = ?ch jj ! c"
    if "j \<le> jj" and "jj < w" and "c < 3" for jj c
  proof (cases "jj = j")
    case True
    have "out' ! (?p + c) = ?out1 ! (?p + c)" using that(3) by (intro keep) auto
    also have "\<dots> = ?ch j ! c" using b that(3) by (rule put3_nth_in)
    finally show ?thesis using True by simp
  next
    case False
    then have "j + 1 \<le> jj" using that(1) by simp
    from rest[OF this that(2,3)] show ?thesis .
  qed
  show ?case using res len old new by blast
qed

lemma nv12_rows_spec:
  assumes "i \<le> h"
    and "\<forall>ii<h. \<forall>jj<w. ii * w + jj < length inp
              \<and> uvo + ((ii div 2) * w + 2 * (jj div 2)) + 1 < length inp
              \<and> uvo + ((ii div 2) * w + 2 * (jj div 2)) + 1 \<le> INT_MAX"
    and "3 * (h * w) \<le> INT_MAX"
    and "3 * (h * w) \<le> length out"
  shows "\<exists>out'. nv12_rows inp out w h uvo i = Some out'
           \<and> length out' = length out
           \<and> (\<forall>k. k < 3 * (i * w) \<or> 3 * (h * w) \<le> k \<longrightarrow> out' ! k = out ! k)
           \<and> (\<forall>ii jj c. i \<le> ii \<and> ii < h \<and> jj < w \<and> c < 3 \<longrightarrow>
                  out' ! (3 * (ii * w + jj) + c) =
                  nv_chan (inp ! (ii * w + jj))
                          (inp ! (uvo + ((ii div 2) * w + 2 * (jj div 2))))
                          (inp ! (uvo + ((ii div 2) * w + 2 * (jj div 2)) + 1)) ! c)"
  using assms(1,4)
proof (induction "h - i" arbitrary: i out)
  case 0
  then show ?case by (subst nv12_rows.simps) auto
next
  case (Suc n)
  then have ih: "i < h" and n: "n = h - (i + 1)" by linarith+
  let ?ch = "\<lambda>ii jj. nv_chan (inp ! (ii * w + jj))
                          (inp ! (uvo + ((ii div 2) * w + 2 * (jj div 2))))
                          (inp ! (uvo + ((ii div 2) * w + 2 * (jj div 2)) + 1))"
  have "(i + 1) * w \<le> h * w" using ih by (intro mult_le_mono1) simp
  then have rowb: "3 * (i * w + w) \<le> 3 * (h * w)" by (simp add: algebra_simps)
  then have wb: "3 * (i * w + w) \<le> length out" using Suc.prems by linarith
  have ib: "3 * (i * w + w) \<le> INT_MAX" using rowb assms(3) by linarith
  have rdb: "\<forall>jj<w. i * w + jj < length inp
              \<and> uvo + ((i div 2) * w + 2 * (jj div 2)) + 1 < length inp
              \<and> uvo + ((i div 2) * w + 2 * (jj div 2)) + 1 \<le> INT_MAX"
    using assms(2) ih by blast
  have "\<exists>out'. nv12_cols inp out w uvo i 0 = Some out'
           \<and> length out' = length out
           \<and> (\<forall>k. k < 3 * (i * w + 0) \<or> 3 * (i * w + w) \<le> k \<longrightarrow> out' ! k = out ! k)
           \<and> (\<forall>jj c. 0 \<le> jj \<and> jj < w \<and> c < 3 \<longrightarrow> out' ! (3 * (i * w + jj) + c) = ?ch i jj ! c)"
    using rdb wb ib by (intro nv12_cols_spec) simp_all
  then obtain out1 where
    cols: "nv12_cols inp out w uvo i 0 = Some out1"
    and len1: "length out1 = length out"
    and keep1: "\<And>k. k < 3 * (i * w) \<or> 3 * (i * w + w) \<le> k \<Longrightarrow> out1 ! k = out ! k"
    and new1: "\<And>jj c. jj < w \<Longrightarrow> c < 3 \<Longrightarrow> out1 ! (3 * (i * w + jj) + c) = ?ch i jj ! c"
    by auto
  have "\<exists>out'. nv12_rows inp out1 w h uvo (i + 1) = Some out'
           \<and> length out' = length out1
           \<and> (\<forall>k. k < 3 * ((i + 1) * w) \<or> 3 * (h * w) \<le> k \<longrightarrow> out' ! k = out1 ! k)
           \<and> (\<forall>ii jj c. i + 1 \<le> ii \<and> ii < h \<and> jj < w \<and> c < 3 \<longrightarrow>
                  out' ! (3 * (ii * w + jj) + c) = ?ch ii jj ! c)"
    using Suc.prems ih len1 by (intro Suc.hyps(1) n) simp_all
  then obtain out' where
    run: "nv12_rows inp out1 w h uvo (i + 1) = Some out'"
    and len': "length out' = length out1"
    and keep': "\<forall>k. k < 3 * ((i + 1) * w) \<or> 3 * (h * w) \<le> k \<longrightarrow> out' ! k = out1 ! k"
    and rest': "\<forall>ii jj c. i + 1 \<le> ii \<and> ii < h \<and> jj < w \<and> c < 3 \<longrightarrow>
                  out' ! (3 * (ii * w + jj) + c) = ?ch ii jj ! c"
    by blast
  have len: "length out' = length out" using len' len1 by simp
  have keep: "out' ! k = out1 ! k" if "k < 3 * ((i + 1) * w) \<or> 3 * (h * w) \<le> k" for k
    using keep' that by blast
  have rest: "out' ! (3 * (ii * w + jj) + c) = ?ch ii jj ! c"
    if "i + 1 \<le> ii" and "ii < h" and "jj < w" and "c < 3" for ii jj c
    using rest' that by blast
  have res: "nv12_rows inp out w h uvo i = Some out'"
    using ih cols run by (subst nv12_rows.simps) simp
  have old: "out' ! k = out ! k" if "k < 3 * (i * w) \<or> 3 * (h * w) \<le> k" for k
  proof -
    have "out' ! k = out1 ! k" using that by (intro keep) (auto simp: algebra_simps)
    also have "\<dots> = out ! k" using that rowb by (intro keep1) auto
    finally show ?thesis .
  qed
  have new: "out' ! (3 * (ii * w + jj) + c) = ?ch ii jj ! c"
    if "i \<le> ii" and "ii < h" and "jj < w" and "c < 3" for ii jj c
  proof (cases "ii = i")
    case True
    have "3 * (i * w + jj) + c < 3 * ((i + 1) * w)"
      using that(3,4) by (simp add: algebra_simps)
    then have "out' ! (3 * (i * w + jj) + c) = out1 ! (3 * (i * w + jj) + c)"
      by (intro keep) simp
    also have "\<dots> = ?ch i jj ! c" using that(3,4) by (rule new1)
    finally show ?thesis using True by simp
  next
    case False
    then have "i + 1 \<le> ii" using that(1) by simp
    from rest[OF this that(2,3,4)] show ?thesis .
  qed
  show ?case using res len old new by blast
qed

lemma nv12_to_rgb24_spec:
  assumes "\<forall>i<h. \<forall>j<w. w * h + ((i div 2) * w + 2 * (j div 2)) + 1 < length inp"
    and "3 * (w * h) \<le> length out"
    and "w \<le> INT_MAX" and "h \<le> INT_MAX" and "3 * (w * h) \<le> INT_MAX"
  shows "\<exists>out'. nv12_to_rgb24 inp out w h = Some out'
           \<and> length out' = length out
           \<and> (\<forall>k. 3 * (w * h) \<le> k \<longrightarrow> out' ! k = out ! k)
           \<and> (\<forall>i j c. i < h \<and> j < w \<and> c < 3 \<longrightarrow>
                  out' ! (3 * (i * w + j) + c) =
                  nv_chan (inp ! (i * w + j))
                          (inp ! (w * h + ((i div 2) * w + 2 * (j div 2))))
                          (inp ! (w * h + ((i div 2) * w + 2 * (j div 2)) + 1)) ! c)"
proof -
  have wh: "w * h \<le> INT_MAX" using assms(5) by linarith
  have in_frame: "i * w + j < w * h" if "i < h" and "j < w" for i j
  proof -
    have "(i + 1) * w \<le> h * w" using that(1) by (intro mult_le_mono1) simp
    then show ?thesis using that(2) by (simp add: algebra_simps)
  qed
  have luma: "i * w + j < length inp" if "i < h" and "j < w" for i j
  proof -
    note in_frame[OF that]
    also have "w * h < length inp" using assms(1) that by fastforce
    finally show ?thesis .
  qed
  have cidx: "w * h + ((i div 2) * w + 2 * (j div 2)) + 1 \<le> INT_MAX"
    if "i < h" and "j < w" for i j
  proof -
    have "(i div 2) * w \<le> i * w" by (intro mult_le_mono1) simp
    moreover have "2 * (j div 2) \<le> j" by simp
    ultimately have "(i div 2) * w + 2 * (j div 2) \<le> i * w + j" by linarith
    then show ?thesis using in_frame[OF that] assms(5) by linarith
  qed
  have "\<exists>out'. nv12_rows inp out w h (w * h) 0 = Some out'
           \<and> length out' = length out
           \<and> (\<forall>k. k < 3 * (0 * w) \<or> 3 * (h * w) \<le> k \<longrightarrow> out' ! k = out ! k)
           \<and> (\<forall>ii jj c. 0 \<le> ii \<and> ii < h \<and> jj < w \<and> c < 3 \<longrightarrow>
                  out' ! (3 * (ii * w + jj) + c) =
                  nv_chan (inp ! (ii * w + jj))
                          (inp ! (w * h + ((ii div 2) * w + 2 * (jj div 2))))
                          (inp ! (w * h + ((ii div 2) * w + 2 * (jj div 2)) + 1)) ! c)"
    using assms(1,2,5) luma cidx by (intro nv12_rows_spec) (simp_all add: mult.commute)
  then show ?thesis
    using wh assms(3,4) by (simp add: nv12_to_rgb24_def cint_def mult.commute[of h w])
qed










lemma nv_chan_formula:
  "uint (nv_chan yb ub vb ! 0) =
     clamp255 (drop_bit 8 (298 * (uint yb - 16) + 409 * (uint vb - 128) + 128))"
  "uint (nv_chan yb ub vb ! 1) =
     clamp255 (drop_bit 8 (298 * (uint yb - 16) - 100 * (uint ub - 128) - 208 * (uint vb - 128) + 128))"
  "uint (nv_chan yb ub vb ! 2) =
     clamp255 (drop_bit 8 (298 * (uint yb - 16) + 516 * (uint ub - 128) + 128))"
  by (simp_all only: nv_chan_def nth_Cons_0 nth_Cons_Suc One_nat_def numeral_2_eq_2 uint_clamp255)



subsection \<open>The destination manager\<close>

lemma sink_inv_init:
  assumes "length mem = JPEG_OUTPUT_BUFFER_SIZE"
  shows "sink_inv (jpeg_init_destination (jpeg_set_dest_frame dest fr) mem) 0 []"
  using assms
  by (simp add: sink_inv_def jpeg_init_destination_def jpeg_set_dest_frame_def
        JPEG_OUTPUT_BUFFER_SIZE_def)

lemma take_Suc_update: "n < length xs \<Longrightarrow> take (Suc n) (xs[n := b]) = take n xs @ [b]"
  by (simp add: take_Suc_conv_app_nth)

lemma sink_inv_emit:
  assumes "sink_inv dest n bs"
  shows "sink_inv (fst (emit_byte (dest, n) b)) (snd (emit_byte (dest, n) b)) (bs @ [b])"
proof -
  let ?B = JPEG_OUTPUT_BUFFER_SIZE
  let ?fr = "dest_frame dest"
  from assms[unfolded sink_inv_def] have lb: "length (buf dest) = ?B"
    and sum: "next_output_byte dest + free_in_buffer dest = ?B"
    and pos: "0 < free_in_buffer dest"
    and us: "used ?fr = ?B * n"
    and cap: "used ?fr \<le> length (data ?fr)"
    and cont: "take (used ?fr) (data ?fr) @ take (next_output_byte dest) (buf dest) = bs"
    by blast+
  have nob: "next_output_byte dest < length (buf dest)" using lb sum pos by linarith
  show ?thesis
  proof (cases "free_in_buffer dest = 1")
    case True
    then have full: "Suc (next_output_byte dest) = length (buf dest)" using lb sum by simp
    have "take ?B ((buf dest)[next_output_byte dest := b]) =
            take (Suc (next_output_byte dest)) ((buf dest)[next_output_byte dest := b])"
      using full lb by simp
    also have "\<dots> = take (next_output_byte dest) (buf dest) @ [b]"
      using nob by (rule take_Suc_update)
    finally have chunk: "take ?B ((buf dest)[next_output_byte dest := b]) =
            take (next_output_byte dest) (buf dest) @ [b]" .
    show ?thesis
      using True lb sum us cap cont chunk
      by (simp add: sink_inv_def emit_byte_def jpeg_empty_output_buffer_def
            us_frame_append_data_def Let_def JPEG_OUTPUT_BUFFER_SIZE_def)
  next
    case False
    then have "1 < free_in_buffer dest" using pos by simp
    then show ?thesis
      using lb sum us cap cont nob
      by (simp add: sink_inv_def emit_byte_def Let_def take_Suc_update)
  qed
qed

lemma sink_inv_writes:
  assumes "sink_inv dest n bs"
  shows "sink_inv (fst (compressor_writes (dest, n) xs)) (snd (compressor_writes (dest, n) xs))
           (bs @ xs)"
  using assms
proof (induction xs arbitrary: dest n bs)
  case Nil
  then show ?case by simp
next
  case (Cons x xs)
  from sink_inv_emit[OF Cons.prems, of x]
  have "sink_inv (fst (compressor_writes (fst (emit_byte (dest, n) x), snd (emit_byte (dest, n) x)) xs))
          (snd (compressor_writes (fst (emit_byte (dest, n) x), snd (emit_byte (dest, n) x)) xs))
          ((bs @ [x]) @ xs)"
    by (rule Cons.IH)
  then show ?case by simp
qed

lemma compressor_writes_append:
  "compressor_writes s (xs @ ys) = compressor_writes (compressor_writes s xs) ys"
  by (induction xs arbitrary: s) simp_all

lemma emit_byte_used_mono:
  "used (dest_frame (fst s)) \<le> used (dest_frame (fst (emit_byte s b)))"
  by (simp add: emit_byte_def jpeg_empty_output_buffer_def us_frame_append_data_def Let_def)

lemma compressor_writes_used_mono:
  "used (dest_frame (fst s)) \<le> used (dest_frame (fst (compressor_writes s xs)))"
proof (induction xs arbitrary: s)
  case Nil
  show ?case by simp
next
  case (Cons x xs)
  have "used (dest_frame (fst s)) \<le> used (dest_frame (fst (emit_byte s x)))"
    by (rule emit_byte_used_mono)
  also have "\<dots> \<le> used (dest_frame (fst (compressor_writes (emit_byte s x) xs)))"
    by (rule Cons.IH)
  finally show ?case by simp
qed

lemma sink_inv_term:
  assumes "sink_inv dest n bs"
  shows "used (dest_frame (jpeg_term_destination dest)) =
           JPEG_OUTPUT_BUFFER_SIZE * n + (JPEG_OUTPUT_BUFFER_SIZE - free_in_buffer dest)"
    and "used (dest_frame (jpeg_term_destination dest)) = length bs"
    and "take (used (dest_frame (jpeg_term_destination dest)))
           (data (dest_frame (jpeg_term_destination dest))) = bs"
proof -
  let ?B = JPEG_OUTPUT_BUFFER_SIZE
  let ?fr = "dest_frame dest"
  from assms[unfolded sink_inv_def] have lb: "length (buf dest) = ?B"
    and sum: "next_output_byte dest + free_in_buffer dest = ?B"
    and us: "used ?fr = ?B * n"
    and cap: "used ?fr \<le> length (data ?fr)"
    and cont: "take (used ?fr) (data ?fr) @ take (next_output_byte dest) (buf dest) = bs"
    by blast+
  have fin: "?B - free_in_buffer dest = next_output_byte dest" using sum by linarith
  have nob: "next_output_byte dest \<le> length (buf dest)" using lb sum by linarith
  show "used (dest_frame (jpeg_term_destination dest)) = ?B * n + (?B - free_in_buffer dest)"
    using us by (simp add: jpeg_term_destination_def us_frame_append_data_def Let_def)
  have lbs: "length bs = used ?fr + next_output_byte dest"
    using cont[symmetric] cap nob by simp
  show "used (dest_frame (jpeg_term_destination dest)) = length bs"
    using lbs fin by (simp add: jpeg_term_destination_def us_frame_append_data_def Let_def)
  show "take (used (dest_frame (jpeg_term_destination dest)))
           (data (dest_frame (jpeg_term_destination dest))) = bs"
    using cont cap nob fin lbs
    by (simp add: jpeg_term_destination_def us_frame_append_data_def Let_def)
qed

subsection \<open>Evaluation on concrete buffers\<close>

lemma replicate_numeral_Cons: "replicate (numeral k) x = x # replicate (numeral k - 1) x"
  by (simp add: numeral_eq_Suc)

lemma list_update_Cons_numeral: "(x # xs)[numeral k := y] = x # xs[numeral k - 1 := y]"
  by (simp add: numeral_eq_Suc)

lemmas yuyv_eval = jpeg_write_scanlines_yuyv_def yuyv_rows.simps yuyv_line.simps yuyv_pixel_def
  YUV_R_def YUV_G_def YUV_B_def NORM_COMPONENT_def
  jpeg_start_compress_def jpeg_write_scanlines_def rd_def wr_def Let_def
  drop_bit_eq_div push_bit_eq_mult replicate_numeral_Cons list_update_Cons_numeral

subsection \<open>Claims about the RGB565 feeder\<close>

text \<open>
  Claim C2, as amended. For a packed RGB565 frame whose pixel bytes are all \<open>0xFF\<close>, the
  feeder hands \<open>height\<close> rows to the compressor and every pixel of every row is the
  triple (248, 252, 248): the three bit fields are moved to the top of their byte and the
  low bits stay zero, so the result is not (255, 255, 255).
\<close>

theorem rgb565_all_bits_set:
  assumes "height frame * (2 * width frame + padding) \<le> length (data frame)"
    and "\<forall>r<height frame. \<forall>k<2 * width frame.
           data frame ! (r * (2 * width frame + padding) + k) = 255"
  shows "\<exists>rows. jpeg_write_scanlines_rgb565 jpeg_start_compress frame padding =
             Some \<lparr>next_scanline = height frame, written = rows\<rparr>
           \<and> length rows = height frame
           \<and> (\<forall>r<height frame. \<forall>x<width frame.
                  rows ! r ! (3 * x) = 248 \<and> rows ! r ! (3 * x + 1) = 252
                \<and> rows ! r ! (3 * x + 2) = 248)"
proof -
  let ?s = "2 * width frame + padding"
  from rgb565_feeder_spec[OF assms(1)] obtain rows where
    run: "jpeg_write_scanlines_rgb565 jpeg_start_compress frame padding =
            Some \<lparr>next_scanline = height frame, written = rows\<rparr>"
    and len: "length rows = height frame"
    and px: "\<And>r x c. r < height frame \<Longrightarrow> x < width frame \<Longrightarrow> c < 3 \<Longrightarrow>
               rows ! r ! (3 * x + c) =
                 rgb565_chan (data frame ! (r * ?s + 2 * x)) (data frame ! (r * ?s + 2 * x + 1)) ! c"
    by blast
  have white: "rows ! r ! (3 * x + c) = [248, 252, 248] ! c"
    if "r < height frame" and "x < width frame" and "c < 3" for r x c
  proof -
    have "data frame ! (r * ?s + 2 * x) = 255"
      using assms(2)[rule_format, of r "2 * x"] that(1,2) by simp
    moreover have "data frame ! (r * ?s + 2 * x + 1) = 255"
      using assms(2)[rule_format, of r "2 * x + 1"] that(1,2) by (simp add: add.assoc)
    ultimately show ?thesis
      using px[OF that] by (simp only: rgb565_chan_white)
  qed
  have "rows ! r ! (3 * x) = 248 \<and> rows ! r ! (3 * x + 1) = 252 \<and> rows ! r ! (3 * x + 2) = 248"
    if "r < height frame" and "x < width frame" for r x
    using white[OF that, of 0] white[OF that, of 1] white[OF that, of 2] by simp
  with run len show ?thesis by blast
qed

theorem rgb565_all_bits_set_witness:
  "height rgb565_white_frame * (2 * width rgb565_white_frame + 0)
      \<le> length (data rgb565_white_frame)
   \<and> (\<exists>rows. jpeg_write_scanlines_rgb565 jpeg_start_compress rgb565_white_frame 0 =
             Some \<lparr>next_scanline = height rgb565_white_frame, written = rows\<rparr>
           \<and> length rows = height rgb565_white_frame
           \<and> (\<forall>r<height rgb565_white_frame. \<forall>x<width rgb565_white_frame.
                  rows ! r ! (3 * x) = 248 \<and> rows ! r ! (3 * x + 1) = 252
                \<and> rows ! r ! (3 * x + 2) = 248))"
proof -
  have h1: "height rgb565_white_frame * (2 * width rgb565_white_frame + 0)
      \<le> length (data rgb565_white_frame)"
    by (simp add: rgb565_white_frame_def)
  have h2: "\<forall>r<height rgb565_white_frame. \<forall>k<2 * width rgb565_white_frame.
           data rgb565_white_frame ! (r * (2 * width rgb565_white_frame + 0) + k) = 255"
    by (simp add: rgb565_white_frame_def less_Suc_eq numeral_2_eq_2)
  show ?thesis
    by (intro conjI h1 rgb565_all_bits_set[OF h1 h2])
qed

text \<open>
  Claim C2 as stated fails: a single pixel \<open>0xFF 0xFF\<close> is converted to (248, 252, 248),
  not to (255, 255, 255).
\<close>

theorem rgb565_white_counterexample:
  "jpeg_write_scanlines_rgb565 jpeg_start_compress
      rgb565_white_frame 0 =
     Some \<lparr>next_scanline = 1, written = [[248, 252, 248]]\<rparr>
   \<and> jpeg_write_scanlines_rgb565 jpeg_start_compress
      rgb565_white_frame 0 \<noteq>
     Some \<lparr>next_scanline = 1, written = [[255, 255, 255]]\<rparr>"
  by (simp add: rgb565_white_frame_def jpeg_write_scanlines_rgb565_def jpeg_start_compress_def
        rgb565_rows.simps rgb565_line.simps rgb565_pixel_def rd_def wr_def
        jpeg_write_scanlines_def numeral_3_eq_3)

text \<open>
  Claim C10. For every pixel of every row that the RGB565 feeder hands to the compressor,
  the red byte is a multiple of 8 and at most 248, the green byte a multiple of 4 and at
  most 252, the blue byte a multiple of 8 and at most 248; so none of them is 255.
\<close>

theorem rgb565_channels_quantized:
  assumes "height frame * (2 * width frame + padding) \<le> length (data frame)"
  shows "\<exists>rows. jpeg_write_scanlines_rgb565 jpeg_start_compress frame padding =
             Some \<lparr>next_scanline = height frame, written = rows\<rparr>
           \<and> length rows = height frame
           \<and> (\<forall>r<height frame. \<forall>x<width frame.
                  unat (rows ! r ! (3 * x)) mod 8 = 0 \<and> unat (rows ! r ! (3 * x)) \<le> 248
                \<and> unat (rows ! r ! (3 * x + 1)) mod 4 = 0 \<and> unat (rows ! r ! (3 * x + 1)) \<le> 252
                \<and> unat (rows ! r ! (3 * x + 2)) mod 8 = 0 \<and> unat (rows ! r ! (3 * x + 2)) \<le> 248
                \<and> rows ! r ! (3 * x) \<noteq> 255 \<and> rows ! r ! (3 * x + 1) \<noteq> 255
                \<and> rows ! r ! (3 * x + 2) \<noteq> 255)"
proof -
  let ?s = "2 * width frame + padding"
  from rgb565_feeder_spec[OF assms(1)] obtain rows where
    run: "jpeg_write_scanlines_rgb565 jpeg_start_compress frame padding =
            Some \<lparr>next_scanline = height frame, written = rows\<rparr>"
    and len: "length rows = height frame"
    and px: "\<And>r x c. r < height frame \<Longrightarrow> x < width frame \<Longrightarrow> c < 3 \<Longrightarrow>
               rows ! r ! (3 * x + c) =
                 rgb565_chan (data frame ! (r * ?s + 2 * x)) (data frame ! (r * ?s + 2 * x + 1)) ! c"
    by blast
  have q: "unat (rows ! r ! (3 * x)) mod 8 = 0 \<and> unat (rows ! r ! (3 * x)) \<le> 248
         \<and> unat (rows ! r ! (3 * x + 1)) mod 4 = 0 \<and> unat (rows ! r ! (3 * x + 1)) \<le> 252
         \<and> unat (rows ! r ! (3 * x + 2)) mod 8 = 0 \<and> unat (rows ! r ! (3 * x + 2)) \<le> 248
         \<and> rows ! r ! (3 * x) \<noteq> 255 \<and> rows ! r ! (3 * x + 1) \<noteq> 255
         \<and> rows ! r ! (3 * x + 2) \<noteq> 255"
    if "r < height frame" and "x < width frame" for r x
  proof -
    have r8: "unat (rows ! r ! (3 * x)) mod 8 = 0"
      using px[OF that, of 0] rgb565_chan_red by simp
    have g4: "unat (rows ! r ! (3 * x + 1)) mod 4 = 0"
      using px[OF that, of 1] rgb565_chan_green by simp
    have b8: "unat (rows ! r ! (3 * x + 2)) mod 8 = 0"
      using px[OF that, of 2] rgb565_chan_blue by simp
    have n1: "rows ! r ! (3 * x) \<noteq> 255"
      using u8_mod8_le[OF r8] by auto
    have n2: "rows ! r ! (3 * x + 1) \<noteq> 255"
      using u8_mod4_le[OF g4] by auto
    have n3: "rows ! r ! (3 * x + 2) \<noteq> 255"
      using u8_mod8_le[OF b8] by auto
    show ?thesis
      using r8 g4 b8 u8_mod8_le[OF r8] u8_mod4_le[OF g4] u8_mod8_le[OF b8] n1 n2 n3 by blast
  qed
  with run len show ?thesis by blast
qed

theorem rgb565_channels_quantized_witness:
  "height rgb565_white_frame * (2 * width rgb565_white_frame + 0)
      \<le> length (data rgb565_white_frame)
   \<and> (\<exists>rows. jpeg_write_scanlines_rgb565 jpeg_start_compress rgb565_white_frame 0 =
             Some \<lparr>next_scanline = height rgb565_white_frame, written = rows\<rparr>
           \<and> length rows = height rgb565_white_frame
           \<and> (\<forall>r<height rgb565_white_frame. \<forall>x<width rgb565_white_frame.
                  unat (rows ! r ! (3 * x)) mod 8 = 0 \<and> unat (rows ! r ! (3 * x)) \<le> 248
                \<and> unat (rows ! r ! (3 * x + 1)) mod 4 = 0 \<and> unat (rows ! r ! (3 * x + 1)) \<le> 252
                \<and> unat (rows ! r ! (3 * x + 2)) mod 8 = 0 \<and> unat (rows ! r ! (3 * x + 2)) \<le> 248
                \<and> rows ! r ! (3 * x) \<noteq> 255 \<and> rows ! r ! (3 * x + 1) \<noteq> 255
                \<and> rows ! r ! (3 * x + 2) \<noteq> 255))"
proof -
  have h1: "height rgb565_white_frame * (2 * width rgb565_white_frame + 0)
      \<le> length (data rgb565_white_frame)"
    by (simp add: rgb565_white_frame_def)
  show ?thesis
    by (intro conjI h1 rgb565_channels_quantized[OF h1])
qed

subsection \<open>Claims about the packed 4:2:2 feeders\<close>

text \<open>
  Claim C3, as amended. For a YUYV or UYVY frame of even width whose buffer holds
  \<open>height * (2 * width + padding)\<close> bytes, the feeder hands \<open>height\<close> rows to the
  compressor, and for the pixel \<open>x\<close> of row \<open>r\<close>, with \<open>Y\<close> its luma byte and \<open>U\<close>,
  \<open>V\<close> the chroma bytes of its 2-pixel group, the three bytes stored are
  \<open>clamp ((256 * Y + 359 * (V - 128)) >> 8)\<close>,
  \<open>clamp ((256 * Y - 88 * (U - 128) - 183 * (V - 128)) >> 8)\<close> and
  \<open>clamp ((256 * Y + 454 * (U - 128)) >> 8)\<close>, where \<open>>> 8\<close> is the arithmetic shift
  \<open>drop_bit 8\<close> (division by 256 rounding down, nothing added before it), no offset of 16
  is taken from \<open>Y\<close>, and \<open>clamp\<close> cuts the value to the range 0..255.
\<close>

theorem packed422_transform:
  assumes "even (width frame)"
    and "height frame * (2 * width frame + padding) \<le> length (data frame)"
  shows "(\<exists>rows. jpeg_write_scanlines_yuyv jpeg_start_compress frame padding =
             Some \<lparr>next_scanline = height frame, written = rows\<rparr>
           \<and> length rows = height frame
           \<and> (\<forall>r<height frame. \<forall>x<width frame.
                 (let g = r * (2 * width frame + padding) + 4 * (x div 2);
                      Y = uint (data frame ! (g + 2 * (x mod 2)));
                      U = uint (data frame ! (g + 1));
                      V = uint (data frame ! (g + 3))
                  in uint (rows ! r ! (3 * x)) = clamp255 (drop_bit 8 (256 * Y + 359 * (V - 128)))
                   \<and> uint (rows ! r ! (3 * x + 1)) =
                       clamp255 (drop_bit 8 (256 * Y - 88 * (U - 128) - 183 * (V - 128)))
                   \<and> uint (rows ! r ! (3 * x + 2)) = clamp255 (drop_bit 8 (256 * Y + 454 * (U - 128))))))
       \<and> (\<exists>rows. jpeg_write_scanlines_uyvy jpeg_start_compress frame padding =
             Some \<lparr>next_scanline = height frame, written = rows\<rparr>
           \<and> length rows = height frame
           \<and> (\<forall>r<height frame. \<forall>x<width frame.
                 (let g = r * (2 * width frame + padding) + 4 * (x div 2);
                      Y = uint (data frame ! (g + 1 + 2 * (x mod 2)));
                      U = uint (data frame ! g);
                      V = uint (data frame ! (g + 2))
                  in uint (rows ! r ! (3 * x)) = clamp255 (drop_bit 8 (256 * Y + 359 * (V - 128)))
                   \<and> uint (rows ! r ! (3 * x + 1)) =
                       clamp255 (drop_bit 8 (256 * Y - 88 * (U - 128) - 183 * (V - 128)))
                   \<and> uint (rows ! r ! (3 * x + 2)) = clamp255 (drop_bit 8 (256 * Y + 454 * (U - 128))))))"
proof (rule conjI)
  let ?s = "2 * width frame + padding"
  from yuyv_feeder_spec[OF assms] obtain rows where
    run: "jpeg_write_scanlines_yuyv jpeg_start_compress frame padding =
            Some \<lparr>next_scanline = height frame, written = rows\<rparr>"
    and len: "length rows = height frame"
    and px: "\<And>r x c. r < height frame \<Longrightarrow> x < width frame \<Longrightarrow> c < 3 \<Longrightarrow>
               rows ! r ! (3 * x + c) =
                 yuv_chan (data frame ! (r * ?s + 4 * (x div 2) + 2 * (x mod 2)))
                          (data frame ! (r * ?s + 4 * (x div 2) + 1))
                          (data frame ! (r * ?s + 4 * (x div 2) + 3)) ! c"
    by blast
  have "\<forall>r<height frame. \<forall>x<width frame.
          (let g = r * ?s + 4 * (x div 2);
               Y = uint (data frame ! (g + 2 * (x mod 2)));
               U = uint (data frame ! (g + 1));
               V = uint (data frame ! (g + 3))
           in uint (rows ! r ! (3 * x)) = clamp255 (drop_bit 8 (256 * Y + 359 * (V - 128)))
            \<and> uint (rows ! r ! (3 * x + 1)) =
                clamp255 (drop_bit 8 (256 * Y - 88 * (U - 128) - 183 * (V - 128)))
            \<and> uint (rows ! r ! (3 * x + 2)) = clamp255 (drop_bit 8 (256 * Y + 454 * (U - 128))))"
    unfolding Let_def using px by (intro allI impI yuv_px_formula) blast
  with run len show "\<exists>rows. jpeg_write_scanlines_yuyv jpeg_start_compress frame padding =
             Some \<lparr>next_scanline = height frame, written = rows\<rparr>
           \<and> length rows = height frame
           \<and> (\<forall>r<height frame. \<forall>x<width frame.
                 (let g = r * ?s + 4 * (x div 2);
                      Y = uint (data frame ! (g + 2 * (x mod 2)));
                      U = uint (data frame ! (g + 1));
                      V = uint (data frame ! (g + 3))
                  in uint (rows ! r ! (3 * x)) = clamp255 (drop_bit 8 (256 * Y + 359 * (V - 128)))
                   \<and> uint (rows ! r ! (3 * x + 1)) =
                       clamp255 (drop_bit 8 (256 * Y - 88 * (U - 128) - 183 * (V - 128)))
                   \<and> uint (rows ! r ! (3 * x + 2)) = clamp255 (drop_bit 8 (256 * Y + 454 * (U - 128)))))"
    by blast
next
  let ?s = "2 * width frame + padding"
  from uyvy_feeder_spec[OF assms] obtain rows where
    run: "jpeg_write_scanlines_uyvy jpeg_start_compress frame padding =
            Some \<lparr>next_scanline = height frame, written = rows\<rparr>"
    and len: "length rows = height frame"
    and px: "\<And>r x c. r < height frame \<Longrightarrow> x < width frame \<Longrightarrow> c < 3 \<Longrightarrow>
               rows ! r ! (3 * x + c) =
                 yuv_chan (data frame ! (r * ?s + 4 * (x div 2) + 1 + 2 * (x mod 2)))
                          (data frame ! (r * ?s + 4 * (x div 2)))
                          (data frame ! (r * ?s + 4 * (x div 2) + 2)) ! c"
    by blast
  have "\<forall>r<height frame. \<forall>x<width frame.
          (let g = r * ?s + 4 * (x div 2);
               Y = uint (data frame ! (g + 1 + 2 * (x mod 2)));
               U = uint (data frame ! g);
               V = uint (data frame ! (g + 2))
           in uint (rows ! r ! (3 * x)) = clamp255 (drop_bit 8 (256 * Y + 359 * (V - 128)))
            \<and> uint (rows ! r ! (3 * x + 1)) =
                clamp255 (drop_bit 8 (256 * Y - 88 * (U - 128) - 183 * (V - 128)))
            \<and> uint (rows ! r ! (3 * x + 2)) = clamp255 (drop_bit 8 (256 * Y + 454 * (U - 128))))"
    unfolding Let_def using px by (intro allI impI yuv_px_formula) blast
  with run len show "\<exists>rows. jpeg_write_scanlines_uyvy jpeg_start_compress frame padding =
             Some \<lparr>next_scanline = height frame, written = rows\<rparr>
           \<and> length rows = height frame
           \<and> (\<forall>r<height frame. \<forall>x<width frame.
                 (let g = r * ?s + 4 * (x div 2);
                      Y = uint (data frame ! (g + 1 + 2 * (x mod 2)));
                      U = uint (data frame ! g);
                      V = uint (data frame ! (g + 2))
                  in uint (rows ! r ! (3 * x)) = clamp255 (drop_bit 8 (256 * Y + 359 * (V - 128)))
                   \<and> uint (rows ! r ! (3 * x + 1)) =
                       clamp255 (drop_bit 8 (256 * Y - 88 * (U - 128) - 183 * (V - 128)))
                   \<and> uint (rows ! r ! (3 * x + 2)) = clamp255 (drop_bit 8 (256 * Y + 454 * (U - 128)))))"
    by blast
qed

theorem packed422_transform_witness:
  "even (width yuv_example_frame)
   \<and> height yuv_example_frame * (2 * width yuv_example_frame + 0) \<le> length (data yuv_example_frame)
   \<and> ((\<exists>rows. jpeg_write_scanlines_yuyv jpeg_start_compress yuv_example_frame 0 =
             Some \<lparr>next_scanline = height yuv_example_frame, written = rows\<rparr>
           \<and> length rows = height yuv_example_frame
           \<and> (\<forall>r<height yuv_example_frame. \<forall>x<width yuv_example_frame.
                 (let g = r * (2 * width yuv_example_frame + 0) + 4 * (x div 2);
                      Y = uint (data yuv_example_frame ! (g + 2 * (x mod 2)));
                      U = uint (data yuv_example_frame ! (g + 1));
                      V = uint (data yuv_example_frame ! (g + 3))
                  in uint (rows ! r ! (3 * x)) = clamp255 (drop_bit 8 (256 * Y + 359 * (V - 128)))
                   \<and> uint (rows ! r ! (3 * x + 1)) =
                       clamp255 (drop_bit 8 (256 * Y - 88 * (U - 128) - 183 * (V - 128)))
                   \<and> uint (rows ! r ! (3 * x + 2)) = clamp255 (drop_bit 8 (256 * Y + 454 * (U - 128))))))
       \<and> (\<exists>rows. jpeg_write_scanlines_uyvy jpeg_start_compress yuv_example_frame 0 =
             Some \<lparr>next_scanline = height yuv_example_frame, written = rows\<rparr>
           \<and> length rows = height yuv_example_frame
           \<and> (\<forall>r<height yuv_example_frame. \<forall>x<width yuv_example_frame.
                 (let g = r * (2 * width yuv_example_frame + 0) + 4 * (x div 2);
                      Y = uint (data yuv_example_frame ! (g + 1 + 2 * (x mod 2)));
                      U = uint (data yuv_example_frame ! g);
                      V = uint (data yuv_example_frame ! (g + 2))
                  in uint (rows ! r ! (3 * x)) = clamp255 (drop_bit 8 (256 * Y + 359 * (V - 128)))
                   \<and> uint (rows ! r ! (3 * x + 1)) =
                       clamp255 (drop_bit 8 (256 * Y - 88 * (U - 128) - 183 * (V - 128)))
                   \<and> uint (rows ! r ! (3 * x + 2)) = clamp255 (drop_bit 8 (256 * Y + 454 * (U - 128)))))))"
proof -
  have h1: "even (width yuv_example_frame)"
    by (simp add: yuv_example_frame_def)
  have h2: "height yuv_example_frame * (2 * width yuv_example_frame + 0) \<le> length (data yuv_example_frame)"
    by (simp add: yuv_example_frame_def)
  show ?thesis
    by (intro conjI h1 h2 packed422_transform[OF h1 h2, THEN conjunct1] packed422_transform[OF h1 h2, THEN conjunct2])
qed

text \<open>
  Claim C3 as stated fails for a frame of odd width. The feeders never reset the pair
  counter \<open>z\<close> or the group cursor at the end of a row, so after a row of three pixels
  the next row is read one pixel late in the group. In the YUYV frame of width 3 and
  height 2 with one padding byte per row, pixel 0 of row 1 has the luma byte 7 and the
  chroma bytes 8 and 10 of the buffer, for which the formula of the claim gives
  (255, 133, 132); the feeder takes the padding byte 6 for \<open>U\<close> and byte 8 for \<open>V\<close>
  and hands over (146, 255, 0).
\<close>

theorem packed422_odd_width_counterexample:
  "jpeg_write_scanlines_yuyv jpeg_start_compress yuyv_odd_frame 1 =
     Some \<lparr>next_scanline = 2,
           written = [[30, 30, 30, 30, 30, 30, 130, 0, 30],
                      [146, 255, 0, 146, 188, 255, 146, 188, 255]]\<rparr>
   \<and> clamp255 (drop_bit 8 (256 * uint (data yuyv_odd_frame ! 7)
                              + 359 * (uint (data yuyv_odd_frame ! 10) - 128))) = 255
   \<and> clamp255 (drop_bit 8 (256 * uint (data yuyv_odd_frame ! 7)
                              - 88 * (uint (data yuyv_odd_frame ! 8) - 128)
                              - 183 * (uint (data yuyv_odd_frame ! 10) - 128))) = 133
   \<and> clamp255 (drop_bit 8 (256 * uint (data yuyv_odd_frame ! 7)
                              + 454 * (uint (data yuyv_odd_frame ! 8) - 128))) = 132"
proof (intro conjI)
  show "jpeg_write_scanlines_yuyv jpeg_start_compress yuyv_odd_frame 1 =
     Some \<lparr>next_scanline = 2,
           written = [[30, 30, 30, 30, 30, 30, 130, 0, 30],
                      [146, 255, 0, 146, 188, 255, 146, 188, 255]]\<rparr>"
    by (simp add: yuyv_odd_frame_def yuyv_eval)
qed (simp_all add: yuyv_odd_frame_def clamp255_def drop_bit_eq_div)

text \<open>
  Claim C9, as amended. For a YUYV frame, or a UYVY frame, of even width in which every
  chroma byte is 128, every pixel the feeder hands to the compressor has its three bytes equal to the
  luma byte of that pixel: no rounding loss, no clamping, no black-level offset.
\<close>

theorem packed422_neutral_chroma:
  assumes "even (width frame)"
    and "height frame * (2 * width frame + padding) \<le> length (data frame)"
  shows "((\<forall>r<height frame. \<forall>g<width frame div 2.
              data frame ! (r * (2 * width frame + padding) + 4 * g + 1) = 128
            \<and> data frame ! (r * (2 * width frame + padding) + 4 * g + 3) = 128)
          \<longrightarrow> (\<exists>rows. jpeg_write_scanlines_yuyv jpeg_start_compress frame padding =
                  Some \<lparr>next_scanline = height frame, written = rows\<rparr>
                \<and> length rows = height frame
                \<and> (\<forall>r<height frame. \<forall>x<width frame.
                      (let Y = data frame ! (r * (2 * width frame + padding) + 2 * x)
                       in rows ! r ! (3 * x) = Y \<and> rows ! r ! (3 * x + 1) = Y
                        \<and> rows ! r ! (3 * x + 2) = Y))))
       \<and> ((\<forall>r<height frame. \<forall>g<width frame div 2.
              data frame ! (r * (2 * width frame + padding) + 4 * g) = 128
            \<and> data frame ! (r * (2 * width frame + padding) + 4 * g + 2) = 128)
          \<longrightarrow> (\<exists>rows. jpeg_write_scanlines_uyvy jpeg_start_compress frame padding =
                  Some \<lparr>next_scanline = height frame, written = rows\<rparr>
                \<and> length rows = height frame
                \<and> (\<forall>r<height frame. \<forall>x<width frame.
                      (let Y = data frame ! (r * (2 * width frame + padding) + 2 * x + 1)
                       in rows ! r ! (3 * x) = Y \<and> rows ! r ! (3 * x + 1) = Y
                        \<and> rows ! r ! (3 * x + 2) = Y))))"
proof (intro conjI impI)
  let ?s = "2 * width frame + padding"
  assume neutral: "\<forall>r<height frame. \<forall>g<width frame div 2.
              data frame ! (r * ?s + 4 * g + 1) = 128 \<and> data frame ! (r * ?s + 4 * g + 3) = 128"
  from yuyv_feeder_spec[OF assms] obtain rows where
    run: "jpeg_write_scanlines_yuyv jpeg_start_compress frame padding =
            Some \<lparr>next_scanline = height frame, written = rows\<rparr>"
    and len: "length rows = height frame"
    and px: "\<And>r x c. r < height frame \<Longrightarrow> x < width frame \<Longrightarrow> c < 3 \<Longrightarrow>
               rows ! r ! (3 * x + c) =
                 yuv_chan (data frame ! (r * ?s + 4 * (x div 2) + 2 * (x mod 2)))
                          (data frame ! (r * ?s + 4 * (x div 2) + 1))
                          (data frame ! (r * ?s + 4 * (x div 2) + 3)) ! c"
    by blast
  have "rows ! r ! (3 * x) = data frame ! (r * ?s + 2 * x)
      \<and> rows ! r ! (3 * x + 1) = data frame ! (r * ?s + 2 * x)
      \<and> rows ! r ! (3 * x + 2) = data frame ! (r * ?s + 2 * x)"
    if "r < height frame" and "x < width frame" for r x
  proof (rule yuv_px_neutral)
    fix c :: nat assume c: "c < 3"
    have g: "x div 2 < width frame div 2"
      using that(2) assms(1) by (auto elim!: evenE)
    have ix: "r * ?s + 4 * (x div 2) + 2 * (x mod 2) = r * ?s + 2 * x"
      by presburger
    from neutral that(1) g
    have "data frame ! (r * ?s + 4 * (x div 2) + 1) = 128"
      and "data frame ! (r * ?s + 4 * (x div 2) + 3) = 128" by blast+
    with px[OF that c] show "rows ! r ! (3 * x + c) =
        yuv_chan (data frame ! (r * ?s + 2 * x)) 128 128 ! c"
      unfolding ix by simp
  qed
  with run len show "\<exists>rows. jpeg_write_scanlines_yuyv jpeg_start_compress frame padding =
                  Some \<lparr>next_scanline = height frame, written = rows\<rparr>
                \<and> length rows = height frame
                \<and> (\<forall>r<height frame. \<forall>x<width frame.
                      (let Y = data frame ! (r * ?s + 2 * x)
                       in rows ! r ! (3 * x) = Y \<and> rows ! r ! (3 * x + 1) = Y
                        \<and> rows ! r ! (3 * x + 2) = Y))"
    unfolding Let_def by blast
next
  let ?s = "2 * width frame + padding"
  assume neutral: "\<forall>r<height frame. \<forall>g<width frame div 2.
              data frame ! (r * ?s + 4 * g) = 128 \<and> data frame ! (r * ?s + 4 * g + 2) = 128"
  from uyvy_feeder_spec[OF assms] obtain rows where
    run: "jpeg_write_scanlines_uyvy jpeg_start_compress frame padding =
            Some \<lparr>next_scanline = height frame, written = rows\<rparr>"
    and len: "length rows = height frame"
    and px: "\<And>r x c. r < height frame \<Longrightarrow> x < width frame \<Longrightarrow> c < 3 \<Longrightarrow>
               rows ! r ! (3 * x + c) =
                 yuv_chan (data frame ! (r * ?s + 4 * (x div 2) + 1 + 2 * (x mod 2)))
                          (data frame ! (r * ?s + 4 * (x div 2)))
                          (data frame ! (r * ?s + 4 * (x div 2) + 2)) ! c"
    by blast
  have "rows ! r ! (3 * x) = data frame ! (r * ?s + 2 * x + 1)
      \<and> rows ! r ! (3 * x + 1) = data frame ! (r * ?s + 2 * x + 1)
      \<and> rows ! r ! (3 * x + 2) = data frame ! (r * ?s + 2 * x + 1)"
    if "r < height frame" and "x < width frame" for r x
  proof (rule yuv_px_neutral)
    fix c :: nat assume c: "c < 3"
    have g: "x div 2 < width frame div 2"
      using that(2) assms(1) by (auto elim!: evenE)
    have ix: "r * ?s + 4 * (x div 2) + 1 + 2 * (x mod 2) = r * ?s + 2 * x + 1"
      by presburger
    from neutral that(1) g
    have "data frame ! (r * ?s + 4 * (x div 2)) = 128"
      and "data frame ! (r * ?s + 4 * (x div 2) + 2) = 128" by blast+
    with px[OF that c] show "rows ! r ! (3 * x + c) =
        yuv_chan (data frame ! (r * ?s + 2 * x + 1)) 128 128 ! c"
      unfolding ix by simp
  qed
  with run len show "\<exists>rows. jpeg_write_scanlines_uyvy jpeg_start_compress frame padding =
                  Some \<lparr>next_scanline = height frame, written = rows\<rparr>
                \<and> length rows = height frame
                \<and> (\<forall>r<height frame. \<forall>x<width frame.
                      (let Y = data frame ! (r * ?s + 2 * x + 1)
                       in rows ! r ! (3 * x) = Y \<and> rows ! r ! (3 * x + 1) = Y
                        \<and> rows ! r ! (3 * x + 2) = Y))"
    unfolding Let_def by blast
qed

theorem packed422_neutral_chroma_witness:
  "even (width yuv_gray_frame)
   \<and> height yuv_gray_frame * (2 * width yuv_gray_frame + 0) \<le> length (data yuv_gray_frame)
   \<and> (\<exists>rows. jpeg_write_scanlines_yuyv jpeg_start_compress yuv_gray_frame 0 =
                  Some \<lparr>next_scanline = height yuv_gray_frame, written = rows\<rparr>
                \<and> length rows = height yuv_gray_frame
                \<and> (\<forall>r<height yuv_gray_frame. \<forall>x<width yuv_gray_frame.
                      (let Y = data yuv_gray_frame ! (r * (2 * width yuv_gray_frame + 0) + 2 * x)
                       in rows ! r ! (3 * x) = Y \<and> rows ! r ! (3 * x + 1) = Y
                        \<and> rows ! r ! (3 * x + 2) = Y)))
   \<and> (\<exists>rows. jpeg_write_scanlines_uyvy jpeg_start_compress yuv_gray_frame 0 =
                  Some \<lparr>next_scanline = height yuv_gray_frame, written = rows\<rparr>
                \<and> length rows = height yuv_gray_frame
                \<and> (\<forall>r<height yuv_gray_frame. \<forall>x<width yuv_gray_frame.
                      (let Y = data yuv_gray_frame ! (r * (2 * width yuv_gray_frame + 0) + 2 * x + 1)
                       in rows ! r ! (3 * x) = Y \<and> rows ! r ! (3 * x + 1) = Y
                        \<and> rows ! r ! (3 * x + 2) = Y)))"
proof -
  have h1: "even (width yuv_gray_frame)"
    by (simp add: yuv_gray_frame_def)
  have h2: "height yuv_gray_frame * (2 * width yuv_gray_frame + 0) \<le> length (data yuv_gray_frame)"
    by (simp add: yuv_gray_frame_def)
  have n1: "\<forall>r<height yuv_gray_frame. \<forall>g<width yuv_gray_frame div 2.
              data yuv_gray_frame ! (r * (2 * width yuv_gray_frame + 0) + 4 * g + 1) = 128
            \<and> data yuv_gray_frame ! (r * (2 * width yuv_gray_frame + 0) + 4 * g + 3) = 128"
    by (simp add: yuv_gray_frame_def)
  have n2: "\<forall>r<height yuv_gray_frame. \<forall>g<width yuv_gray_frame div 2.
              data yuv_gray_frame ! (r * (2 * width yuv_gray_frame + 0) + 4 * g) = 128
            \<and> data yuv_gray_frame ! (r * (2 * width yuv_gray_frame + 0) + 4 * g + 2) = 128"
    by (simp add: yuv_gray_frame_def)
  show ?thesis
    by (intro conjI h1 h2 packed422_neutral_chroma[OF h1 h2, THEN conjunct1, THEN mp, OF n1]
          packed422_neutral_chroma[OF h1 h2, THEN conjunct2, THEN mp, OF n2])
qed

text \<open>
  Claim C9 as stated fails for a frame of odd width. In the YUYV frame of width 3 and
  height 2 in which every chroma byte and every padding byte is 128 and every luma byte
  is 30, pixel 2 of row 0 is handed over as (0, 100, 30) and not as (30, 30, 30): its
  group is cut by the end of the row, and the feeder takes the first luma byte of the next
  row for \<open>V\<close>.
\<close>

theorem packed422_neutral_odd_width_counterexample:
  "jpeg_write_scanlines_yuyv jpeg_start_compress yuyv_odd_gray_frame 1 =
     Some \<lparr>next_scanline = 2,
           written = [[30, 30, 30, 30, 30, 30, 0, 100, 30],
                      [30, 30, 30, 30, 30, 30, 30, 30, 30]]\<rparr>
   \<and> data yuyv_odd_gray_frame ! 4 = 30
   \<and> data yuyv_odd_gray_frame ! 1 = 128 \<and> data yuyv_odd_gray_frame ! 3 = 128
   \<and> data yuyv_odd_gray_frame ! 5 = 128 \<and> data yuyv_odd_gray_frame ! 8 = 128
   \<and> data yuyv_odd_gray_frame ! 10 = 128 \<and> data yuyv_odd_gray_frame ! 12 = 128"
proof (intro conjI)
  show "jpeg_write_scanlines_yuyv jpeg_start_compress yuyv_odd_gray_frame 1 =
     Some \<lparr>next_scanline = 2,
           written = [[30, 30, 30, 30, 30, 30, 0, 100, 30],
                      [30, 30, 30, 30, 30, 30, 30, 30, 30]]\<rparr>"
    by (simp add: yuyv_odd_gray_frame_def yuyv_eval)
qed (simp_all add: yuyv_odd_gray_frame_def)

subsection \<open>Claim about the BGR24 and RGB24 feeders\<close>

text \<open>
  Claim C8. Take a frame of packed 24-bit pixels stored B, G, R and a second buffer that
  holds, for every pixel of every row, the same three bytes in the order R, G, B (the
  padding bytes of the two buffers need not agree). Then the BGR24 feeder on the first
  buffer and the RGB24 feeder on the second hand exactly the same rows to the compressor.
\<close>

theorem bgr24_rgb24_swapped:
  assumes "height frame * (3 * width frame + padding) \<le> length (data frame)"
    and "height frame * (3 * width frame + padding) \<le> length rgb"
    and "\<forall>r<height frame. \<forall>x<width frame.
           rgb ! (r * (3 * width frame + padding) + 3 * x) =
             data frame ! (r * (3 * width frame + padding) + 3 * x + 2)
         \<and> rgb ! (r * (3 * width frame + padding) + 3 * x + 1) =
             data frame ! (r * (3 * width frame + padding) + 3 * x + 1)
         \<and> rgb ! (r * (3 * width frame + padding) + 3 * x + 2) =
             data frame ! (r * (3 * width frame + padding) + 3 * x)"
  shows "\<exists>rows. jpeg_write_scanlines_bgr24 jpeg_start_compress frame padding =
             Some \<lparr>next_scanline = height frame, written = rows\<rparr>
           \<and> jpeg_write_scanlines_rgb24 jpeg_start_compress (frame\<lparr>data := rgb\<rparr>) padding =
             Some \<lparr>next_scanline = height frame, written = rows\<rparr>
           \<and> length rows = height frame"
proof -
  let ?w = "width frame" and ?h = "height frame" and ?s = "3 * width frame + padding"
  from bgr24_feeder_spec[OF assms(1)] obtain rb where
    runb: "jpeg_write_scanlines_bgr24 jpeg_start_compress frame padding =
            Some \<lparr>next_scanline = ?h, written = rb\<rparr>"
    and lenb: "length rb = ?h"
    and rowb: "\<And>r. r < ?h \<Longrightarrow> length (rb ! r) = 3 * ?w"
    and pxb: "\<And>r x c. r < ?h \<Longrightarrow> x < ?w \<Longrightarrow> c < 3 \<Longrightarrow>
               rb ! r ! (3 * x + c) = data frame ! (r * ?s + 3 * x + (2 - c))"
    by blast
  have "height (frame\<lparr>data := rgb\<rparr>) * (3 * width (frame\<lparr>data := rgb\<rparr>) + padding)
          \<le> length (data (frame\<lparr>data := rgb\<rparr>))"
    using assms(2) by simp
  from rgb24_feeder_spec[OF this] obtain rr where
    runr: "jpeg_write_scanlines_rgb24 jpeg_start_compress (frame\<lparr>data := rgb\<rparr>) padding =
            Some \<lparr>next_scanline = ?h, written = rr\<rparr>"
    and lenr: "length rr = ?h"
    and rowr: "\<And>r. r < ?h \<Longrightarrow> length (rr ! r) = 3 * ?w"
    and pxr: "\<And>r k. r < ?h \<Longrightarrow> k < 3 * ?w \<Longrightarrow> rr ! r ! k = rgb ! (r * ?s + k)"
    by auto
  have sw: "rgb ! (r * ?s + 3 * x + c) = data frame ! (r * ?s + 3 * x + (2 - c))"
    if "r < ?h" and "x < ?w" and "c < 3" for r x c
  proof -
    from that(3) consider "c = 0" | "c = 1" | "c = 2" by linarith
    then show ?thesis
      using assms(3)[rule_format, OF that(1,2)] by cases simp_all
  qed
  have "rb ! r = rr ! r" if r: "r < ?h" for r
  proof (rule nth_equalityI)
    show "length (rb ! r) = length (rr ! r)" using rowb[OF r] rowr[OF r] by simp
  next
    fix k assume "k < length (rb ! r)"
    then have k: "k < 3 * ?w" using rowb[OF r] by simp
    then have x: "k div 3 < ?w" and c: "k mod 3 < 3" by auto
    have split: "k = 3 * (k div 3) + k mod 3" by simp
    have "rb ! r ! k = rb ! r ! (3 * (k div 3) + k mod 3)" using split by simp
    also have "\<dots> = data frame ! (r * ?s + 3 * (k div 3) + (2 - k mod 3))"
      by (rule pxb[OF r x c])
    also have "\<dots> = rgb ! (r * ?s + 3 * (k div 3) + k mod 3)"
      by (rule sw[OF r x c, symmetric])
    also have "\<dots> = rgb ! (r * ?s + k)" using split by (simp add: add.assoc)
    also have "\<dots> = rr ! r ! k" by (rule pxr[OF r k, symmetric])
    finally show "rb ! r ! k = rr ! r ! k" .
  qed
  then have "rb = rr" using lenb lenr by (intro nth_equalityI) simp_all
  with runb runr lenb show ?thesis by blast
qed

theorem bgr24_rgb24_swapped_witness:
  "height bgr_example_frame * (3 * width bgr_example_frame + 1) \<le> length (data bgr_example_frame)
   \<and> height bgr_example_frame * (3 * width bgr_example_frame + 1) \<le> length rgb_example_data
   \<and> (\<exists>rows. jpeg_write_scanlines_bgr24 jpeg_start_compress bgr_example_frame 1 =
             Some \<lparr>next_scanline = height bgr_example_frame, written = rows\<rparr>
           \<and> jpeg_write_scanlines_rgb24 jpeg_start_compress
                 (bgr_example_frame\<lparr>data := rgb_example_data\<rparr>) 1 =
             Some \<lparr>next_scanline = height bgr_example_frame, written = rows\<rparr>
           \<and> length rows = height bgr_example_frame)"
proof -
  have h1: "height bgr_example_frame * (3 * width bgr_example_frame + 1)
              \<le> length (data bgr_example_frame)"
    by (simp add: bgr_example_frame_def)
  have h2: "height bgr_example_frame * (3 * width bgr_example_frame + 1)
              \<le> length rgb_example_data"
    by (simp add: bgr_example_frame_def rgb_example_data_def)
  have h3: "\<forall>r<height bgr_example_frame. \<forall>x<width bgr_example_frame.
           rgb_example_data ! (r * (3 * width bgr_example_frame + 1) + 3 * x) =
             data bgr_example_frame ! (r * (3 * width bgr_example_frame + 1) + 3 * x + 2)
         \<and> rgb_example_data ! (r * (3 * width bgr_example_frame + 1) + 3 * x + 1) =
             data bgr_example_frame ! (r * (3 * width bgr_example_frame + 1) + 3 * x + 1)
         \<and> rgb_example_data ! (r * (3 * width bgr_example_frame + 1) + 3 * x + 2) =
             data bgr_example_frame ! (r * (3 * width bgr_example_frame + 1) + 3 * x)"
    by (simp add: bgr_example_frame_def rgb_example_data_def less_Suc_eq numeral_2_eq_2)
  show ?thesis
    by (intro conjI h1 h2 bgr24_rgb24_swapped[OF h1 h2 h3])
qed

subsection \<open>Claims about the semi-planar converters\<close>

text \<open>
  Claim C4. For an NV12 buffer of the given width and height in which every chroma read
  of the converter lies inside the buffer, and with \<open>3 * width * height\<close> at most
  \<open>INT_MAX\<close> so that the \<open>int\<close> indices of the converter do not overflow,
  \<open>_nv12_to_rgb24\<close> returns, and for the pixel
  at \<open>(row, col)\<close> it has taken the chroma pair at offset
  \<open>(row div 2) * width + 2 * (col div 2)\<close> past the luma plane of \<open>width * height\<close>
  bytes and stored at index \<open>(row * width + col) * 3\<close> of the output the bytes
  \<open>clamp ((298 * C + 409 * E + 128) >> 8)\<close>,
  \<open>clamp ((298 * C - 100 * D - 208 * E + 128) >> 8)\<close> and
  \<open>clamp ((298 * C + 516 * D + 128) >> 8)\<close>, with \<open>C = Y - 16\<close>, \<open>D = U - 128\<close> and
  \<open>E = V - 128\<close>.
\<close>

theorem nv12_conversion:
  assumes "\<forall>i<h. \<forall>j<w. w * h + ((i div 2) * w + 2 * (j div 2)) + 1 < length inp"
    and "3 * (w * h) \<le> length out"
    and "w \<le> INT_MAX" and "h \<le> INT_MAX" and "3 * (w * h) \<le> INT_MAX"
  shows "\<exists>out'. nv12_to_rgb24 inp out w h = Some out'
           \<and> length out' = length out
           \<and> (\<forall>row<h. \<forall>col<w.
                 (let Y = uint (inp ! (row * w + col));
                      U = uint (inp ! (w * h + ((row div 2) * w + 2 * (col div 2))));
                      V = uint (inp ! (w * h + ((row div 2) * w + 2 * (col div 2)) + 1));
                      C = Y - 16; D = U - 128; E = V - 128
                  in uint (out' ! ((row * w + col) * 3)) =
                       clamp255 (drop_bit 8 (298 * C + 409 * E + 128))
                   \<and> uint (out' ! ((row * w + col) * 3 + 1)) =
                       clamp255 (drop_bit 8 (298 * C - 100 * D - 208 * E + 128))
                   \<and> uint (out' ! ((row * w + col) * 3 + 2)) =
                       clamp255 (drop_bit 8 (298 * C + 516 * D + 128))))"
proof -
  from nv12_to_rgb24_spec[OF assms] obtain out' where
    run: "nv12_to_rgb24 inp out w h = Some out'"
    and len: "length out' = length out"
    and px: "\<And>i j c. i < h \<Longrightarrow> j < w \<Longrightarrow> c < 3 \<Longrightarrow>
               out' ! (3 * (i * w + j) + c) =
                 nv_chan (inp ! (i * w + j))
                         (inp ! (w * h + ((i div 2) * w + 2 * (j div 2))))
                         (inp ! (w * h + ((i div 2) * w + 2 * (j div 2)) + 1)) ! c"
    by blast
  have "uint (out' ! ((row * w + col) * 3)) =
          clamp255 (drop_bit 8 (298 * (uint (inp ! (row * w + col)) - 16)
            + 409 * (uint (inp ! (w * h + ((row div 2) * w + 2 * (col div 2)) + 1)) - 128) + 128))
      \<and> uint (out' ! ((row * w + col) * 3 + 1)) =
          clamp255 (drop_bit 8 (298 * (uint (inp ! (row * w + col)) - 16)
            - 100 * (uint (inp ! (w * h + ((row div 2) * w + 2 * (col div 2)))) - 128)
            - 208 * (uint (inp ! (w * h + ((row div 2) * w + 2 * (col div 2)) + 1)) - 128) + 128))
      \<and> uint (out' ! ((row * w + col) * 3 + 2)) =
          clamp255 (drop_bit 8 (298 * (uint (inp ! (row * w + col)) - 16)
            + 516 * (uint (inp ! (w * h + ((row div 2) * w + 2 * (col div 2)))) - 128) + 128))"
    if "row < h" and "col < w" for row col
  proof -
    have e: "(row * w + col) * 3 = 3 * (row * w + col)" by simp
    have "out' ! (3 * (row * w + col)) = out' ! (3 * (row * w + col) + 0)" by simp
    then show ?thesis
      unfolding e
      using px[OF that, of 0] px[OF that, of 1] px[OF that, of 2]
      by (simp only: nv_chan_formula)
  qed
  then show ?thesis using run len unfolding Let_def by blast
qed

theorem nv12_conversion_witness:
  "3 * (2 * 2) \<le> length (replicate 12 (0 :: u8))
   \<and> (2 :: nat) \<le> INT_MAX \<and> 3 * (2 * 2) \<le> INT_MAX
   \<and> (\<exists>out'. nv12_to_rgb24 nv12_example_data (replicate 12 0) 2 2 = Some out'
           \<and> length out' = length (replicate 12 (0 :: u8))
           \<and> (\<forall>row<2. \<forall>col<2.
                 (let Y = uint (nv12_example_data ! (row * 2 + col));
                      U = uint (nv12_example_data ! (2 * 2 + ((row div 2) * 2 + 2 * (col div 2))));
                      V = uint (nv12_example_data ! (2 * 2 + ((row div 2) * 2 + 2 * (col div 2)) + 1));
                      C = Y - 16; D = U - 128; E = V - 128
                  in uint (out' ! ((row * 2 + col) * 3)) =
                       clamp255 (drop_bit 8 (298 * C + 409 * E + 128))
                   \<and> uint (out' ! ((row * 2 + col) * 3 + 1)) =
                       clamp255 (drop_bit 8 (298 * C - 100 * D - 208 * E + 128))
                   \<and> uint (out' ! ((row * 2 + col) * 3 + 2)) =
                       clamp255 (drop_bit 8 (298 * C + 516 * D + 128)))))"
proof -
  have h1: "\<forall>i<2. \<forall>j<2. 2 * 2 + ((i div 2) * 2 + 2 * (j div 2)) + 1 < length nv12_example_data"
    by (simp add: nv12_example_data_def less_Suc_eq numeral_2_eq_2)
  have h2: "3 * (2 * 2) \<le> length (replicate 12 (0 :: u8))"
    by simp
  have h3: "(2 :: nat) \<le> INT_MAX"
    by (simp add: INT_MAX_def)
  have h4: "3 * (2 * 2) \<le> INT_MAX"
    by (simp add: INT_MAX_def)
  show ?thesis
    by (intro conjI h2 h3 h4 nv12_conversion[OF h1 h2 h3 h3 h4])
qed



subsection \<open>Claim about the destination manager\<close>

text \<open>
  Claim C5. Let the compressor write the byte stream \<open>stream\<close> through the destination
  manager of one conversion call: \<open>_jpeg_set_dest_frame\<close>, \<open>init_destination\<close>, the
  writes with a call of \<open>empty_output_buffer\<close> whenever the chunk buffer is full, then
  \<open>term_destination\<close>. The used length of the destination frame starts at 0, never
  decreases from one moment of the call to a later one, is 4096 times the number of
  \<open>empty_output_buffer\<close> calls when the writes are done, and after
  \<open>term_destination\<close> it is that number plus 4096 minus the free space left in the
  chunk buffer, which is the length of the stream; the used bytes of the frame are the
  stream itself, each byte once and in order.
\<close>

theorem sink_used_length:
  assumes "length mem = JPEG_OUTPUT_BUFFER_SIZE"
  shows "(let d0 = jpeg_init_destination (jpeg_set_dest_frame dest fr) mem;
              s1 = compressor_writes (d0, 0) stream;
              d2 = jpeg_term_destination (fst s1)
          in used (dest_frame d0) = 0
           \<and> (\<forall>xs ys zs. stream = xs @ ys @ zs \<longrightarrow>
                  used (dest_frame (fst (compressor_writes (d0, 0) xs)))
                    \<le> used (dest_frame (fst (compressor_writes (d0, 0) (xs @ ys)))))
           \<and> used (dest_frame (fst s1)) = 4096 * snd s1
           \<and> used (dest_frame (fst s1)) \<le> used (dest_frame d2)
           \<and> used (dest_frame d2) = 4096 * snd s1 + (4096 - free_in_buffer (fst s1))
           \<and> used (dest_frame d2) = length stream
           \<and> take (used (dest_frame d2)) (data (dest_frame d2)) = stream)"
proof -
  let ?d0 = "jpeg_init_destination (jpeg_set_dest_frame dest fr) mem"
  let ?s1 = "compressor_writes (?d0, 0) stream"
  let ?d2 = "jpeg_term_destination (fst ?s1)"
  have i0: "sink_inv ?d0 0 []" using assms by (rule sink_inv_init)
  from sink_inv_writes[OF i0, of stream]
  have i1: "sink_inv (fst ?s1) (snd ?s1) stream" by simp
  have u0: "used (dest_frame ?d0) = 0"
    by (simp add: jpeg_init_destination_def jpeg_set_dest_frame_def)
  have mono: "used (dest_frame (fst (compressor_writes (?d0, 0) xs)))
                \<le> used (dest_frame (fst (compressor_writes (?d0, 0) (xs @ ys))))" for xs ys
    unfolding compressor_writes_append by (rule compressor_writes_used_mono)
  have u1: "used (dest_frame (fst ?s1)) = 4096 * snd ?s1"
    using i1 by (simp add: sink_inv_def JPEG_OUTPUT_BUFFER_SIZE_def)
  have u2: "used (dest_frame ?d2) = 4096 * snd ?s1 + (4096 - free_in_buffer (fst ?s1))"
    using sink_inv_term(1)[OF i1] by (simp add: JPEG_OUTPUT_BUFFER_SIZE_def)
  have le: "used (dest_frame (fst ?s1)) \<le> used (dest_frame ?d2)"
    using u1 u2 by simp
  have u3: "used (dest_frame ?d2) = length stream"
    by (rule sink_inv_term(2)[OF i1])
  have c: "take (used (dest_frame ?d2)) (data (dest_frame ?d2)) = stream"
    by (rule sink_inv_term(3)[OF i1])
  show ?thesis
    unfolding Let_def using u0 mono u1 le u2 u3 c by blast
qed

theorem sink_used_length_witness:
  "length (replicate 4096 (0 :: u8)) = JPEG_OUTPUT_BUFFER_SIZE
   \<and> (let d0 = jpeg_init_destination (jpeg_set_dest_frame sink_example_mgr sink_example_frame)
                  (replicate 4096 0);
              s1 = compressor_writes (d0, 0) [1, 2, 3];
              d2 = jpeg_term_destination (fst s1)
          in used (dest_frame d0) = 0
           \<and> (\<forall>xs ys zs. [1, 2, 3] = xs @ ys @ zs \<longrightarrow>
                  used (dest_frame (fst (compressor_writes (d0, 0) xs)))
                    \<le> used (dest_frame (fst (compressor_writes (d0, 0) (xs @ ys)))))
           \<and> used (dest_frame (fst s1)) = 4096 * snd s1
           \<and> used (dest_frame (fst s1)) \<le> used (dest_frame d2)
           \<and> used (dest_frame d2) = 4096 * snd s1 + (4096 - free_in_buffer (fst s1))
           \<and> used (dest_frame d2) = length [1, 2, 3 :: u8]
           \<and> take (used (dest_frame d2)) (data (dest_frame d2)) = [1, 2, 3])"
proof -
  have h: "length (replicate 4096 (0 :: u8)) = JPEG_OUTPUT_BUFFER_SIZE"
    by (simp add: JPEG_OUTPUT_BUFFER_SIZE_def)
  show ?thesis
    by (intro conjI h sink_used_length[OF h])
qed

subsection \<open>Claim about the entry point\<close>

text \<open>
  Claim C7. \<open>us_cpu_encoder_compress\<close> selects the feeder by the format code of the
  source frame: for each of YUYV, UYVY, RGB565, NV12, NV16, BGR24, RGB24 and NV24 the call
  continues with the rows of exactly the feeder of that name, and for every other format
  code it ends in the failed assertion of the \<open>default\<close> branch and returns nothing.
\<close>

theorem compress_dispatch:
  "(let m = jpeg_init_destination
              (jpeg_set_dest_frame mgr (us_frame_encoding_begin src dest V4L2_PIX_FMT_JPEG)) mem;
        j = jpeg_start_compress
    in (format src = V4L2_PIX_FMT_YUYV \<longrightarrow>
          us_cpu_encoder_compress codec mgr mem padding src dest quality =
            jpeg_finish_compress codec src quality m (jpeg_write_scanlines_yuyv j src padding))
     \<and> (format src = V4L2_PIX_FMT_UYVY \<longrightarrow>
          us_cpu_encoder_compress codec mgr mem padding src dest quality =
            jpeg_finish_compress codec src quality m (jpeg_write_scanlines_uyvy j src padding))
     \<and> (format src = V4L2_PIX_FMT_RGB565 \<longrightarrow>
          us_cpu_encoder_compress codec mgr mem padding src dest quality =
            jpeg_finish_compress codec src quality m (jpeg_write_scanlines_rgb565 j src padding))
     \<and> (format src = V4L2_PIX_FMT_NV12 \<longrightarrow>
          us_cpu_encoder_compress codec mgr mem padding src dest quality =
            jpeg_finish_compress codec src quality m (jpeg_write_scanlines_nv12 j src padding))
     \<and> (format src = V4L2_PIX_FMT_NV16 \<longrightarrow>
          us_cpu_encoder_compress codec mgr mem padding src dest quality =
            jpeg_finish_compress codec src quality m (jpeg_write_scanlines_nv16 j src padding))
     \<and> (format src = V4L2_PIX_FMT_BGR24 \<longrightarrow>
          us_cpu_encoder_compress codec mgr mem padding src dest quality =
            jpeg_finish_compress codec src quality m (jpeg_write_scanlines_bgr24 j src padding))
     \<and> (format src = V4L2_PIX_FMT_RGB24 \<longrightarrow>
          us_cpu_encoder_compress codec mgr mem padding src dest quality =
            jpeg_finish_compress codec src quality m (jpeg_write_scanlines_rgb24 j src padding))
     \<and> (format src = V4L2_PIX_FMT_NV24 \<longrightarrow>
          us_cpu_encoder_compress codec mgr mem padding src dest quality =
            jpeg_finish_compress codec src quality m (jpeg_write_scanlines_nv24 j src padding))
     \<and> (format src \<notin> {V4L2_PIX_FMT_YUYV, V4L2_PIX_FMT_UYVY, V4L2_PIX_FMT_RGB565,
                        V4L2_PIX_FMT_NV12, V4L2_PIX_FMT_NV16, V4L2_PIX_FMT_BGR24,
                        V4L2_PIX_FMT_RGB24, V4L2_PIX_FMT_NV24} \<longrightarrow>
          us_cpu_encoder_compress codec mgr mem padding src dest quality = Inl Assertion_failed))"
  by (simp add: us_cpu_encoder_compress_def Let_def V4L2_PIX_FMT_YUYV_def V4L2_PIX_FMT_UYVY_def
        V4L2_PIX_FMT_RGB565_def V4L2_PIX_FMT_NV12_def V4L2_PIX_FMT_NV16_def
        V4L2_PIX_FMT_BGR24_def V4L2_PIX_FMT_RGB24_def V4L2_PIX_FMT_NV24_def)

theorem compress_dispatch_witness:
  "format rgb565_tagged_frame = V4L2_PIX_FMT_RGB565
   \<and> us_cpu_encoder_compress example_codec sink_example_mgr (replicate 4096 0) 0
         rgb565_tagged_frame sink_example_frame 80 =
       jpeg_finish_compress example_codec rgb565_tagged_frame 80
         (jpeg_init_destination
            (jpeg_set_dest_frame sink_example_mgr
               (us_frame_encoding_begin rgb565_tagged_frame sink_example_frame V4L2_PIX_FMT_JPEG))
            (replicate 4096 0))
         (jpeg_write_scanlines_rgb565 jpeg_start_compress rgb565_tagged_frame 0)
   \<and> format rgb565_white_frame \<notin> {V4L2_PIX_FMT_YUYV, V4L2_PIX_FMT_UYVY, V4L2_PIX_FMT_RGB565,
                        V4L2_PIX_FMT_NV12, V4L2_PIX_FMT_NV16, V4L2_PIX_FMT_BGR24,
                        V4L2_PIX_FMT_RGB24, V4L2_PIX_FMT_NV24}
   \<and> us_cpu_encoder_compress example_codec sink_example_mgr (replicate 4096 0) 0
         rgb565_white_frame sink_example_frame 80 = Inl Assertion_failed"
proof -
  have f1: "format rgb565_tagged_frame = V4L2_PIX_FMT_RGB565"
    by (simp add: rgb565_tagged_frame_def)
  have f2: "format rgb565_white_frame \<notin> {V4L2_PIX_FMT_YUYV, V4L2_PIX_FMT_UYVY, V4L2_PIX_FMT_RGB565,
                        V4L2_PIX_FMT_NV12, V4L2_PIX_FMT_NV16, V4L2_PIX_FMT_BGR24,
                        V4L2_PIX_FMT_RGB24, V4L2_PIX_FMT_NV24}"
    by (simp add: rgb565_white_frame_def V4L2_PIX_FMT_YUYV_def V4L2_PIX_FMT_UYVY_def
        V4L2_PIX_FMT_RGB565_def V4L2_PIX_FMT_NV12_def V4L2_PIX_FMT_NV16_def
        V4L2_PIX_FMT_BGR24_def V4L2_PIX_FMT_RGB24_def V4L2_PIX_FMT_NV24_def)
  have c1: "us_cpu_encoder_compress example_codec sink_example_mgr (replicate 4096 0) 0
         rgb565_tagged_frame sink_example_frame 80 =
       jpeg_finish_compress example_codec rgb565_tagged_frame 80
         (jpeg_init_destination
            (jpeg_set_dest_frame sink_example_mgr
               (us_frame_encoding_begin rgb565_tagged_frame sink_example_frame V4L2_PIX_FMT_JPEG))
            (replicate 4096 0))
         (jpeg_write_scanlines_rgb565 jpeg_start_compress rgb565_tagged_frame 0)"
    using f1 compress_dispatch[where src = rgb565_tagged_frame and codec = example_codec
        and mgr = sink_example_mgr and mem = "replicate 4096 0" and padding = 0
        and dest = sink_example_frame and quality = 80, unfolded Let_def]
    by blast
  have c2: "us_cpu_encoder_compress example_codec sink_example_mgr (replicate 4096 0) 0
         rgb565_white_frame sink_example_frame 80 = Inl Assertion_failed"
    using f2 compress_dispatch[where src = rgb565_white_frame and codec = example_codec
        and mgr = sink_example_mgr and mem = "replicate 4096 0" and padding = 0
        and dest = sink_example_frame and quality = 80, unfolded Let_def]
    by blast
  show ?thesis
    by (intro conjI f1 c1 f2 c2)
qed

subsection \<open>Claim about padding\<close>

text \<open>
  Claim C1 does not hold for the semi-planar feeders. Two NV16 frames with the same
  pixels, the same padding of one byte per row and different padding bytes are handed to
  the compressor as different rows: the converter reads the buffer as if it had no
  padding and takes a padding byte for a chroma byte. And for an NV12 frame of two rows
  with one byte of padding per row the feeder does not return rows at all: it steps
  through the RGB buffer of \<open>width * height * 3\<close> bytes by \<open>width * 3 + padding\<close>, so
  the second row it hands to the compressor ends one byte behind the buffer.
\<close>

theorem nv_padding_leak:
  "jpeg_write_scanlines_nv16 jpeg_start_compress (nv16_padded_frame 0) 1 =
     Some \<lparr>next_scanline = 1, written = [[0, 50, 0, 0, 50, 0]]\<rparr>
   \<and> jpeg_write_scanlines_nv16 jpeg_start_compress (nv16_padded_frame 255) 1 =
     Some \<lparr>next_scanline = 1, written = [[0, 0, 255, 0, 0, 255]]\<rparr>
   \<and> jpeg_write_scanlines_nv12 jpeg_start_compress nv12_padded_frame 1 = None"
proof (intro conjI)
  show "jpeg_write_scanlines_nv16 jpeg_start_compress (nv16_padded_frame 0) 1 =
     Some \<lparr>next_scanline = 1, written = [[0, 50, 0, 0, 50, 0]]\<rparr>"
    by (simp add: nv16_padded_frame_def jpeg_write_scanlines_nv16_def nv16_to_rgb24_def
          nv16_rows.simps nv16_cols.simps nv16_pixel_def nv16_scanlines.simps
          jpeg_start_compress_def jpeg_write_scanlines_def rd_def wr_def rd_row_def Let_def
          drop_bit_eq_div replicate_numeral_Cons list_update_Cons_numeral cint_def INT_MAX_def)
  show "jpeg_write_scanlines_nv16 jpeg_start_compress (nv16_padded_frame 255) 1 =
     Some \<lparr>next_scanline = 1, written = [[0, 0, 255, 0, 0, 255]]\<rparr>"
    by (simp add: nv16_padded_frame_def jpeg_write_scanlines_nv16_def nv16_to_rgb24_def
          nv16_rows.simps nv16_cols.simps nv16_pixel_def nv16_scanlines.simps
          jpeg_start_compress_def jpeg_write_scanlines_def rd_def wr_def rd_row_def Let_def
          drop_bit_eq_div replicate_numeral_Cons list_update_Cons_numeral cint_def INT_MAX_def)
  show "jpeg_write_scanlines_nv12 jpeg_start_compress nv12_padded_frame 1 = None"
    by (simp add: nv12_padded_frame_def jpeg_write_scanlines_nv12_def nv12_to_rgb24_def
          nv12_rows.simps nv12_cols.simps nv12_pixel_def nv12_scanlines.simps
          jpeg_start_compress_def jpeg_write_scanlines_def rd_def wr_def rd_row_def Let_def
          drop_bit_eq_div replicate_numeral_Cons list_update_Cons_numeral cint_def INT_MAX_def)
qed

end
